theory Spec2Isabelle
  imports Complex_Main "HOL-Library.Monad_Syntax" "HOL-Library.Log_Nat"
begin

section \<open>Shared run state\<close>

text \<open>
  The module-level dictionary \<open>state\<close> of \<open>app.py\<close>. A progress entry is the
  dictionary \<open>{"done": d, "total": t}\<close>; the field names carry a prefix because
  \<open>done\<close> is reserved. Python floats are modelled as exact rationals.
\<close>

record progress_entry =
  pdone :: int
  ptotal :: int

record eligibility =
  mobile :: bool
  reason :: string

record run_state =
  is_running :: bool
  status :: string
  progress :: rat
  current_search :: string
  current_profile :: string
  completed :: int
  total :: int
  is_paused :: bool
  profile_progress :: "string \<rightharpoonup> progress_entry"
  profile_points :: "string \<rightharpoonup> int"
  profile_eligibility :: "string \<rightharpoonup> eligibility"
  mobile_enabled :: bool
  mobile_progress :: "string \<rightharpoonup> progress_entry"

section \<open>Query helpers\<close>

text \<open>
  \<open>_build_queries\<close>: the \<open>while len(out) < count\<close> loop with its two variables
  \<open>out\<close> and \<open>i\<close>, then the slice \<open>out[:count]\<close>. \<open>count\<close> is a Python int, so it
  may be negative; \<open>py_prefix\<close> is Python's \<open>xs[:n]\<close>.
\<close>

function build_loop :: "string list \<Rightarrow> int \<Rightarrow> string list \<Rightarrow> nat \<Rightarrow> string list" where
  "build_loop base count out i =
     (if int (length out) < count
      then build_loop base count (out @ [base ! (i mod length base)]) (i + 1)
      else out)"
  by pat_completeness auto
termination
  by (relation "measure (\<lambda>(base, count, out, i). nat (count - int (length out)))") auto

definition py_prefix :: "'a list \<Rightarrow> int \<Rightarrow> 'a list" where
  "py_prefix xs n =
     (if n < 0 then take (nat (int (length xs) + n)) xs else take (nat n) xs)"

definition build_queries :: "string list \<Rightarrow> int \<Rightarrow> string list" where
  "build_queries base count =
     (if base = [] then [] else py_prefix (build_loop base count [] 0) count)"

section \<open>Control endpoints\<close>

text \<open>
  \<open>/api/stop\<close>, \<open>/api/pause\<close> and \<open>/api/resume\<close>: the body of the
  \<open>with state_lock\<close> block as a state transformer, paired with the message of the
  JSON response.
\<close>

definition stop_automation :: "run_state \<Rightarrow> run_state \<times> string" where
  "stop_automation s =
     ((if is_running s
       then s\<lparr>is_running := False, status := ''Stopping automation...''\<rparr>
       else s), ''Stopping'')"

definition pause_automation :: "run_state \<Rightarrow> run_state \<times> string" where
  "pause_automation s =
     ((if is_running s
       then s\<lparr>is_paused := True, status := ''Paused''\<rparr>
       else s), ''Paused'')"

definition resume_automation :: "run_state \<Rightarrow> run_state \<times> string" where
  "resume_automation s =
     ((if is_running s
       then s\<lparr>is_paused := False, status := ''Resuming...''\<rparr>
       else s), ''Resumed'')"

text \<open>The module-level initial value of \<open>state\<close>.\<close>

definition initial_state :: run_state where
  "initial_state =
     \<lparr>is_running = False, status = ''Ready'', progress = 0, current_search = [],
      current_profile = [], completed = 0, total = 0, is_paused = False,
      profile_progress = Map.empty, profile_points = Map.empty,
      profile_eligibility = Map.empty, mobile_enabled = False,
      mobile_progress = Map.empty\<rparr>"

section \<open>Profile progress store\<close>

text \<open>
  An entry of \<open>profile_info.json\<close>. Every key may be absent, as the code reads each
  with \<open>entry.get(key, default)\<close>. The store itself is the dictionary from profile
  names to entries.
\<close>

record p_entry =
  e_date :: "string option"
  e_level :: "int option"
  totalSearchPC :: "int option"
  totalSearchMobile :: "int option"
  e_error :: "string option"

type_synonym profile_info = "string \<rightharpoonup> p_entry"

definition empty_entry :: p_entry where
  "empty_entry = \<lparr>e_date = None, e_level = None, totalSearchPC = None,
     totalSearchMobile = None, e_error = None\<rparr>"

definition get_default :: "'a option \<Rightarrow> 'a \<Rightarrow> 'a" where
  "get_default v d = (case v of None \<Rightarrow> d | Some x \<Rightarrow> x)"

text \<open>
  \<open>get_or_init_profile(info, profile)\<close>: returns the normalised entry and the
  updated \<open>info\<close>; \<open>today\<close> is the value of \<open>_today_str()\<close> at the call.
\<close>

definition get_or_init_profile :: "string \<Rightarrow> profile_info \<Rightarrow> string \<Rightarrow> p_entry \<times> profile_info" where
  "get_or_init_profile today info profile =
     (let entry = get_default (info profile) empty_entry;
          level = get_default (e_level entry) 1;
          entry' =
            (if e_date entry \<noteq> Some today
             then \<lparr>e_date = Some today, e_level = Some (if level = 2 then 2 else 1),
                   totalSearchPC = Some 0, totalSearchMobile = Some 0,
                   e_error = e_error entry\<rparr>
             else entry\<lparr>totalSearchPC := Some (get_default (totalSearchPC entry) 0),
                        totalSearchMobile := Some (get_default (totalSearchMobile entry) 0),
                        e_level := Some (if level = 2 then 2 else 1),
                        e_date := Some today\<rparr>)
      in (entry', info(profile \<mapsto> entry')))"

text \<open>
  \<open>bump_profile_progress(profile, is_pc, delta)\<close> on the content of the file
  (load, normalise, add, save).
\<close>

definition bump_entry :: "bool \<Rightarrow> int \<Rightarrow> p_entry \<Rightarrow> p_entry" where
  "bump_entry is_pc delta entry =
     (if is_pc
      then entry\<lparr>totalSearchPC := Some (get_default (totalSearchPC entry) 0 + delta)\<rparr>
      else entry\<lparr>totalSearchMobile := Some (get_default (totalSearchMobile entry) 0 + delta)\<rparr>)"

definition bump_profile_progress :: "string \<Rightarrow> profile_info \<Rightarrow> string \<Rightarrow> bool \<Rightarrow> int \<Rightarrow> profile_info" where
  "bump_profile_progress today info profile is_pc delta =
     (case get_or_init_profile today info profile of
        (entry, info') \<Rightarrow> info'(profile \<mapsto> bump_entry is_pc delta entry))"

section \<open>Starting a run\<close>

text \<open>
  A profile dictionary of the request: the keys \<open>name\<close> and \<open>directory\<close>, each of
  which may be absent (\<open>path\<close> is never read by the code modelled here).
\<close>

record profile =
  pname :: "string option"
  directory :: "string option"

record start_request =
  rq_fruits :: "string list"
  rq_delay :: rat
  rq_browser :: string
  rq_selectedProfiles :: "profile list"
  rq_useDefaultIfNoProfile :: bool
  rq_mobileEnabled :: bool

datatype start_error = AlreadyRunning | NoFruits

text \<open>Python's \<open>a or b\<close> on strings that may be absent or empty.\<close>

definition str_or :: "string option \<Rightarrow> string \<Rightarrow> string" where
  "str_or a b = (case a of None \<Rightarrow> b | Some x \<Rightarrow> if x = [] then b else x)"

definition resolved_name :: "profile \<Rightarrow> string" where
  "resolved_name p = str_or (pname p) (str_or (directory p) ''Default'')"

definition resolve_profiles ::
  "string \<Rightarrow> profile list \<Rightarrow> (string \<Rightarrow> profile list) \<Rightarrow> bool \<Rightarrow> profile list" where
  "resolve_profiles browser req_profiles memory use_default =
     (let profiles =
            (if browser = ''chrome'' \<or> browser = ''edge''
             then (if req_profiles \<noteq> [] then req_profiles
                   else if memory browser \<noteq> [] then memory browser
                   else if use_default
                   then [\<lparr>pname = Some ''Default'', directory = Some ''Default''\<rparr>]
                   else [])
             else [])
      in if profiles = [] then [\<lparr>pname = Some ''Default'', directory = None\<rparr>] else profiles)"

text \<open>
  The loop "Totals by Level" of \<open>start_automation\<close>: its five accumulators and the
  profile store it normalises on the way.
\<close>

record quotas =
  q_progress :: "string \<rightharpoonup> progress_entry"
  q_points :: "string \<rightharpoonup> int"
  q_eligibility :: "string \<rightharpoonup> eligibility"
  q_mobile :: "string \<rightharpoonup> progress_entry"
  q_total :: int
  q_info :: profile_info

definition empty_quotas :: "profile_info \<Rightarrow> quotas" where
  "empty_quotas info = \<lparr>q_progress = Map.empty, q_points = Map.empty,
     q_eligibility = Map.empty, q_mobile = Map.empty, q_total = 0, q_info = info\<rparr>"

definition desktop_quota :: "int \<Rightarrow> int" where
  "desktop_quota lvl = (if lvl = 1 then 10 else 32)"

definition quota_step :: "string \<Rightarrow> int \<Rightarrow> bool \<Rightarrow> quotas \<Rightarrow> profile \<Rightarrow> quotas" where
  "quota_step today mobile_count mobile_en acc p =
     (let name = resolved_name p;
          entry = fst (get_or_init_profile today (q_info acc) name);
          lvl = get_default (e_level entry) 1;
          desktop_total = desktop_quota lvl;
          mobile_ok = (lvl = 2)
      in acc\<lparr>q_progress := (q_progress acc)(name \<mapsto> \<lparr>pdone = 0, ptotal = desktop_total\<rparr>),
             q_points := (q_points acc)(name \<mapsto> lvl),
             q_eligibility := (q_eligibility acc)(name \<mapsto>
                \<lparr>mobile = mobile_ok, reason = (if mobile_ok then [] else ''level < 2'')\<rparr>),
             q_total := q_total acc + desktop_total,
             q_mobile := (if mobile_en \<and> mobile_ok \<and> mobile_count > 0
                          then (q_mobile acc)(name \<mapsto> \<lparr>pdone = 0, ptotal = mobile_count\<rparr>)
                          else q_mobile acc),
             q_info := snd (get_or_init_profile today (q_info acc) name)\<rparr>)"

fun quota_loop :: "string \<Rightarrow> int \<Rightarrow> bool \<Rightarrow> profile list \<Rightarrow> quotas \<Rightarrow> quotas" where
  "quota_loop today mobile_count mobile_en [] acc = acc"
| "quota_loop today mobile_count mobile_en (p # ps) acc =
     quota_loop today mobile_count mobile_en ps (quota_step today mobile_count mobile_en acc p)"

record start_result =
  sr_state :: run_state
  sr_memory :: "string \<Rightarrow> profile list"
  sr_info :: profile_info
  sr_profiles :: "profile list"
  sr_delay :: rat

text \<open>
  \<open>start_automation\<close> up to the point where the worker thread is started: the
  checks that answer 400, the resolution of the profiles, the quotas, and
  \<open>state.update\<close>. The result carries what the worker is started with.
\<close>

definition start_automation ::
  "string \<Rightarrow> int \<Rightarrow> start_request \<Rightarrow> (string \<Rightarrow> profile list) \<Rightarrow> profile_info \<Rightarrow> run_state
     \<Rightarrow> start_error + start_result" where
  "start_automation today mobile_count rq memory info s =
     (if is_running s then Inl AlreadyRunning
      else if rq_fruits rq = [] then Inl NoFruits
      else
        let delay = (if rq_delay rq < 1 / 2 then 3 else rq_delay rq);
            browser = rq_browser rq;
            profiles = resolve_profiles browser (rq_selectedProfiles rq) memory
                         (rq_useDefaultIfNoProfile rq);
            memory' = (if (browser = ''chrome'' \<or> browser = ''edge'') \<and> rq_selectedProfiles rq \<noteq> []
                       then memory(browser := rq_selectedProfiles rq) else memory);
            acc = quota_loop today mobile_count (rq_mobileEnabled rq) profiles (empty_quotas info)
        in Inr \<lparr>sr_state = s\<lparr>is_running := True, status := ''Starting automation...'',
                    progress := 0, completed := 0, total := q_total acc, is_paused := False,
                    profile_progress := q_progress acc,
                    profile_points := profile_points s ++ q_points acc,
                    profile_eligibility := q_eligibility acc,
                    mobile_enabled := rq_mobileEnabled rq,
                    mobile_progress := q_mobile acc\<rparr>,
                sr_memory = memory', sr_info = q_info acc, sr_profiles = profiles,
                sr_delay = delay\<rparr>)"

section \<open>Progress updates of the worker\<close>

text \<open>
  The clamped increment \<open>e["done"] = min(e["done"] + 1, e["total"])\<close>, the
  \<open>with state_lock\<close> block after a desktop query (\<open>c\<close> is the worker's local
  \<open>completed\<close>, already incremented), and the block after a mobile query with its two
  \<open>setdefault\<close> calls.
\<close>

definition bump_done :: "progress_entry \<Rightarrow> progress_entry" where
  "bump_done e = e\<lparr>pdone := min (pdone e + 1) (ptotal e)\<rparr>"

text \<open>
  Python's \<open>float\<close> is the IEEE 754 binary64 format, and both \<open>int / int\<close> and
  \<open>float * int\<close> give the double nearest to the exact result, ties going to the even
  significand. A double is kept here as the rational number it stands for.
  \<open>round_half_even x\<close> is the integer nearest to \<open>x\<close>; \<open>exponent2 x\<close>, for \<open>x > 0\<close>, is
  the \<open>e\<close> with \<open>2^e \<le> x < 2^(e+1)\<close>; \<open>binary64 x\<close> is \<open>x\<close> rounded to 53 significant
  bits. This is the double nearest to \<open>x\<close> whenever \<open>x\<close> is zero or of a magnitude in
  the normal range of the format (from \<open>2^-1022\<close> to below \<open>2^1024\<close>), where every quotient
  and product of the worker lies. \<open>py_progress c t\<close> is
  \<open>(completed / max(1, state["total"])) * 100\<close>.
\<close>

definition round_half_even :: "rat \<Rightarrow> int" where
  "round_half_even x =
     (let n = \<lfloor>x\<rfloor>; r = x - of_int n
      in if r < 1 / 2 then n else if 1 / 2 < r then n + 1 else if even n then n else n + 1)"

definition exponent2 :: "rat \<Rightarrow> int" where
  "exponent2 x =
     (let k = (if 1 \<le> x then int (floorlog 2 (nat \<lfloor>x\<rfloor>)) - 1
               else - int (floorlog 2 (nat \<lfloor>1 / x\<rfloor>)))
      in if power_int 2 (k + 1) \<le> x then k + 1 else k)"

definition binary64 :: "rat \<Rightarrow> rat" where
  "binary64 x =
     (if x = 0 then 0
      else let u = power_int 2 (exponent2 \<bar>x\<bar> - 52)
           in sgn x * of_int (round_half_even (\<bar>x\<bar> / u)) * u)"

definition py_progress :: "int \<Rightarrow> int \<Rightarrow> rat" where
  "py_progress c t = binary64 (binary64 (of_int c / of_int (max 1 t)) * 100)"

definition desktop_update :: "int \<Rightarrow> string \<Rightarrow> run_state \<Rightarrow> run_state" where
  "desktop_update c name s =
     s\<lparr>completed := c,
       progress := py_progress c (total s),
       profile_progress :=
         (case profile_progress s name of
            None \<Rightarrow> profile_progress s
          | Some e \<Rightarrow> (profile_progress s)(name \<mapsto> bump_done e))\<rparr>"

definition mobile_update :: "int \<Rightarrow> string \<Rightarrow> run_state \<Rightarrow> run_state" where
  "mobile_update mobile_count name s =
     s\<lparr>mobile_progress := (mobile_progress s)(name \<mapsto>
          bump_done (get_default (mobile_progress s name) \<lparr>pdone = 0, ptotal = mobile_count\<rparr>))\<rparr>"

section \<open>The worker's environment\<close>

text \<open>
  The worker runs in its own thread and meets the rest of the system at its calls:
  the lock around \<open>state\<close>, the clock, the browser launchers, \<open>pyautogui\<close>, Playwright,
  the process handles, \<open>random\<close> and the profile store. Every answer it gets there is
  fixed in advance by an environment, indexed by the number of times the worker has
  taken the lock so far (two calls of the same kind are always separated by a lock).

  The control endpoints run in other threads under the same lock: \<open>ctl env n\<close> lists
  the stop, pause and resume requests served since the worker released the lock for the
  \<open>n\<close>-th time and before it takes it again.
\<close>

datatype command = Stop | Pause | Resume

record env =
  mobile_search_count :: int
  have_playwright :: bool
  ctl :: "nat \<Rightarrow> command list"
  popen_ok :: "nat \<Rightarrow> bool"
  gui_raises :: "nat \<Rightarrow> bool"
  pw_enter_raises :: "nat \<Rightarrow> bool"
  pw_search_raises :: "nat \<Rightarrow> bool"
  store_raises :: "nat \<Rightarrow> bool"
  proc_raises :: "nat \<Rightarrow> bool"
  proc_alive :: "nat \<Rightarrow> bool"
  rand :: "nat \<Rightarrow> rat"
  today_str :: "nat \<Rightarrow> string"

text \<open>
  What the worker does to the outside, in order: each \<open>time.sleep\<close> with its
  duration, each launch with its result (a process handle is a number), the
  \<open>pyautogui\<close> calls that returned, the calls on process handles, and the Playwright
  session.
\<close>

datatype event =
    Slept rat
  | LaunchBrowser string "string option" "nat option"
  | LaunchMobileBrowser string "string option" "nat option"
  | CloseWindows string
  | Hotkey string
  | Typewrite string
  | PressEnter
  | Terminate nat
  | Kill nat
  | PlaywrightOpen string bool
  | PlaywrightSearch string bool
  | PlaywrightClose string

text \<open>
  The world of the worker: the shared state, the clock (seconds), the number of lock
  acquisitions, the profile store, the events so far, and the worker's local variables
  \<open>completed\<close>, \<open>browser_processes\<close> and \<open>completed_profiles\<close>.
\<close>

record world =
  st :: run_state
  now :: rat
  ticks :: nat
  store :: profile_info
  trace :: "event list"
  completed_l :: int
  browser_processes :: "(nat \<times> string) list"
  completed_profiles :: "string list"

definition serve :: "command \<Rightarrow> run_state \<Rightarrow> run_state" where
  "serve c s = (case c of Stop \<Rightarrow> fst (stop_automation s)
                        | Pause \<Rightarrow> fst (pause_automation s)
                        | Resume \<Rightarrow> fst (resume_automation s))"

definition serve_all :: "command list \<Rightarrow> run_state \<Rightarrow> run_state" where
  "serve_all cs s = fold serve cs s"

text \<open>
  Entering a \<open>with state_lock\<close> block: the requests served in the meantime have
  changed the state. \<open>with_lock env f\<close> is a block whose body is \<open>f\<close>.
\<close>

definition acquire :: "env \<Rightarrow> world \<Rightarrow> world" where
  "acquire env w = w\<lparr>st := serve_all (ctl env (ticks w)) (st w), ticks := Suc (ticks w)\<rparr>"

definition with_lock :: "env \<Rightarrow> (run_state \<Rightarrow> run_state) \<Rightarrow> world \<Rightarrow> world" where
  "with_lock env f w = (acquire env w)\<lparr>st := f (st (acquire env w))\<rparr>"

definition emit :: "event \<Rightarrow> world \<Rightarrow> world" where
  "emit e w = w\<lparr>trace := trace w @ [e]\<rparr>"

definition time_sleep :: "rat \<Rightarrow> world \<Rightarrow> world" where
  "time_sleep d w = emit (Slept d) (w\<lparr>now := now w + d\<rparr>)"

section \<open>Pause helpers\<close>

text \<open>
  \<open>_wait_if_paused\<close> and \<open>sleep_with_pause\<close>. Both loops may run for ever, so they
  return an option: \<open>None\<close> is the call that never returns. \<open>time.time()\<close> is the
  clock of the world, which only \<open>time.sleep\<close> advances.
\<close>

partial_function (option) wait_if_paused :: "env \<Rightarrow> world \<Rightarrow> world option" where
  "wait_if_paused env w =
     (if \<not> is_running (st (acquire env w)) \<or> \<not> is_paused (st (acquire env w))
      then Some (acquire env w)
      else wait_if_paused env (time_sleep (1 / 10) (acquire env w)))"

partial_function (option) sleep_loop :: "env \<Rightarrow> rat \<Rightarrow> world \<Rightarrow> world option" where
  "sleep_loop env deadline w =
     (if now w < deadline
      then (if \<not> is_running (st (acquire env w)) then Some (acquire env w)
            else wait_if_paused env (acquire env w) \<bind>
                 (\<lambda>w'. sleep_loop env deadline
                          (time_sleep (min (1 / 10) (max 0 (deadline - now w'))) w')))
      else Some w)"

definition sleep_with_pause :: "env \<Rightarrow> rat \<Rightarrow> world \<Rightarrow> world option" where
  "sleep_with_pause env seconds w = sleep_loop env (now w + max 0 seconds) w"

section \<open>Launchers and process handles\<close>

text \<open>
  \<open>launch_browser\<close> and \<open>launch_mobile_browser\<close> return a handle only for the
  browsers they know (four for the desktop launcher, Chrome and Edge for the mobile
  one) and only when \<open>subprocess.Popen\<close> succeeds; every failure is logged by the
  launcher and answered with \<open>None\<close>. The worker appends the handle it gets.
\<close>

definition launch_browser :: "env \<Rightarrow> string \<Rightarrow> world \<Rightarrow> nat option" where
  "launch_browser env browser w =
     (if browser \<in> {''chrome'', ''edge'', ''firefox'', ''brave''} \<and> popen_ok env (ticks w)
      then Some (ticks w) else None)"

definition launch_mobile_browser :: "env \<Rightarrow> string \<Rightarrow> world \<Rightarrow> nat option" where
  "launch_mobile_browser env browser w =
     (if browser \<in> {''chrome'', ''edge''} \<and> popen_ok env (ticks w)
      then Some (ticks w) else None)"

definition track :: "nat option \<Rightarrow> string \<Rightarrow> world \<Rightarrow> world" where
  "track proc label w =
     (case proc of None \<Rightarrow> w
      | Some h \<Rightarrow> w\<lparr>browser_processes := browser_processes w @ [(h, label)]\<rparr>)"

text \<open>
  \<open>process.terminate(); sleep_with_pause(0.5); if process.poll() is None:
  process.kill()\<close> inside \<open>try ... except: pass\<close>.
\<close>

definition terminate_process :: "env \<Rightarrow> nat \<Rightarrow> world \<Rightarrow> world option" where
  "terminate_process env h w =
     (if proc_raises env (ticks w) then Some w
      else sleep_with_pause env (1 / 2) (emit (Terminate h) w) \<bind>
           (\<lambda>w'. Some (if proc_alive env (ticks w') then emit (Kill h) w' else w')))"

section \<open>The worker\<close>

text \<open>
  The four \<open>pyautogui\<close> calls of one search with the pauses between them, inside
  \<open>try ... except Exception\<close>: the first call that raises ends the block, and nothing
  of it remains but the events before.
\<close>

definition gui_search :: "env \<Rightarrow> string \<Rightarrow> world \<Rightarrow> world option" where
  "gui_search env q w =
     (if gui_raises env (ticks w) then Some w
      else sleep_with_pause env (1 / 2) (emit (Hotkey ''ctrl+t'') w) \<bind> (\<lambda>w1.
        if gui_raises env (ticks w1) then Some w1
        else sleep_with_pause env (3 / 10) (emit (Hotkey ''ctrl+l'') w1) \<bind> (\<lambda>w2.
          if gui_raises env (ticks w2) then Some w2
          else sleep_with_pause env (1 / 5) (emit (Typewrite q) w2) \<bind> (\<lambda>w3.
            if gui_raises env (ticks w3) then Some w3
            else Some (emit PressEnter w3)))))"

text \<open>\<open>random.uniform(a, b)\<close>: a value between \<open>a\<close> and \<open>b\<close>.\<close>

definition uniform :: "env \<Rightarrow> nat \<Rightarrow> rat \<Rightarrow> rat \<Rightarrow> rat" where
  "uniform env n a b = a + (b - a) * max 0 (min 1 (rand env n))"

text \<open>
  \<open>bump_profile_progress\<close> as the worker calls it, inside \<open>try ... except: pass\<close>:
  a failure of the store leaves the file as it was.
\<close>

definition try_bump :: "env \<Rightarrow> string \<Rightarrow> bool \<Rightarrow> world \<Rightarrow> world" where
  "try_bump env name is_pc w =
     (if store_raises env (ticks w) then w
      else w\<lparr>store := bump_profile_progress (today_str env (ticks w)) (store w) name is_pc 1\<rparr>)"

text \<open>
  One desktop query that runs, from the block that sets \<open>current_search\<close> to the
  humanised pause, and the loop \<open>for q in queries\<close> around it with its pause gate and
  its \<open>break\<close> on a stop.
\<close>

definition desktop_query :: "env \<Rightarrow> rat \<Rightarrow> string \<Rightarrow> string \<Rightarrow> world \<Rightarrow> world option" where
  "desktop_query env delay name q w =
     gui_search env q
       (with_lock env (\<lambda>s. s\<lparr>current_search := q, status := ''Searching for: '' @ q\<rparr>) w)
     \<bind> (\<lambda>w1.
       let c = completed_l w1 + 1;
           w2 = try_bump env name True
                  (with_lock env (desktop_update c name) (w1\<lparr>completed_l := c\<rparr>))
       in sleep_with_pause env (max (1 / 10) (delay + uniform env (ticks w2) (3 / 20) (3 / 5))) w2)"

fun desktop_pass :: "env \<Rightarrow> rat \<Rightarrow> string \<Rightarrow> string list \<Rightarrow> world \<Rightarrow> world option" where
  "desktop_pass env delay name [] w = Some w"
| "desktop_pass env delay name (q # qs) w =
     wait_if_paused env w \<bind> (\<lambda>w1.
       if \<not> is_running (st (acquire env w1)) then Some (acquire env w1)
       else desktop_query env delay name q (acquire env w1) \<bind> desktop_pass env delay name qs)"

text \<open>"Keep windows manageable": the block after \<open>completed_profiles.append(name)\<close>.\<close>

definition MAX_ACTIVE_BROWSERS :: nat where
  "MAX_ACTIVE_BROWSERS = 2"

definition evict_oldest :: "env \<Rightarrow> world \<Rightarrow> world option" where
  "evict_oldest env w =
     (case browser_processes w of
        [] \<Rightarrow> Some w
      | (oldest_process, label) # rest \<Rightarrow>
          terminate_process env oldest_process (w\<lparr>browser_processes := rest\<rparr>))"

definition keep_windows_manageable :: "env \<Rightarrow> string \<Rightarrow> string \<Rightarrow> world \<Rightarrow> world option" where
  "keep_windows_manageable env browser name w =
     (if length (completed_profiles w) > MAX_ACTIVE_BROWSERS
      then evict_oldest env (emit (CloseWindows browser) w) \<bind> (\<lambda>w1.
           sleep_with_pause env 2 (w1\<lparr>completed_profiles := tl (completed_profiles w1)\<rparr>) \<bind> (\<lambda>w2.
           Some (with_lock env (\<lambda>s. s\<lparr>status := ''Freed memory, continuing with '' @ name\<rparr>) w2)))
      else Some w)"

text \<open>
  The mobile pass. One mobile query of the Playwright session and of the UA-window
  fallback, the two loops, and the stage that decides between them.
\<close>

definition mobile_searching :: "string \<Rightarrow> run_state \<Rightarrow> run_state" where
  "mobile_searching mq s =
     s\<lparr>current_search := mq @ '' [m]'', status := ''Mobile searching: '' @ mq\<rparr>"

definition playwright_query :: "env \<Rightarrow> rat \<Rightarrow> string \<Rightarrow> string \<Rightarrow> world \<Rightarrow> world option" where
  "playwright_query env delay name mq w =
     (let w1 = with_lock env (mobile_searching mq) w;
          w2 = emit (PlaywrightSearch mq (\<not> pw_search_raises env (ticks w1))) w1;
          w3 = try_bump env name False
                 (with_lock env (mobile_update (mobile_search_count env) name) w2)
      in sleep_with_pause env (max (1 / 10) (delay + uniform env (ticks w3) (3 / 10) (9 / 10))) w3)"

fun playwright_pass :: "env \<Rightarrow> rat \<Rightarrow> string \<Rightarrow> string list \<Rightarrow> world \<Rightarrow> world option" where
  "playwright_pass env delay name [] w = Some w"
| "playwright_pass env delay name (mq # mqs) w =
     wait_if_paused env w \<bind> (\<lambda>w1.
       if \<not> is_running (st (acquire env w1)) then Some (acquire env w1)
       else playwright_query env delay name mq (acquire env w1) \<bind>
            playwright_pass env delay name mqs)"

definition fallback_query :: "env \<Rightarrow> rat \<Rightarrow> string \<Rightarrow> string \<Rightarrow> world \<Rightarrow> world option" where
  "fallback_query env delay name mq w =
     gui_search env mq (with_lock env (mobile_searching mq) w) \<bind> (\<lambda>w1.
       let w2 = try_bump env name False
                  (with_lock env (mobile_update (mobile_search_count env) name) w1)
       in sleep_with_pause env (max (1 / 10) (delay + uniform env (ticks w2) (3 / 20) (3 / 5))) w2)"

fun fallback_pass :: "env \<Rightarrow> rat \<Rightarrow> string \<Rightarrow> string list \<Rightarrow> world \<Rightarrow> world option" where
  "fallback_pass env delay name [] w = Some w"
| "fallback_pass env delay name (mq # mqs) w =
     wait_if_paused env w \<bind> (\<lambda>w1.
       if \<not> is_running (st (acquire env w1)) then Some (acquire env w1)
       else fallback_query env delay name mq (acquire env w1) \<bind>
            fallback_pass env delay name mqs)"

definition mobile_fallback ::
  "env \<Rightarrow> rat \<Rightarrow> string \<Rightarrow> string \<Rightarrow> string option \<Rightarrow> string list \<Rightarrow> world \<Rightarrow> world option" where
  "mobile_fallback env delay browser name dir mqueries w =
     (let w1 = with_lock env
                 (\<lambda>s. s\<lparr>status := ''Opening '' @ browser @ '' (mobile UA) for profile: '' @ name\<rparr>) w;
          mproc = launch_mobile_browser env browser w1;
          w2 = track mproc (name @ '' (mobile)'') (emit (LaunchMobileBrowser browser dir mproc) w1)
      in sleep_with_pause env 3 w2 \<bind> fallback_pass env delay name mqueries)"

definition default_mobile_queries :: "string list" where
  "default_mobile_queries =
     [''weather today'', ''top news'', ''sports scores'', ''nearby restaurants'', ''time now'']"

definition mobile_ok :: "env \<Rightarrow> string \<Rightarrow> run_state \<Rightarrow> bool" where
  "mobile_ok env name s =
     (mobile_enabled s \<and>
      (case profile_eligibility s name of None \<Rightarrow> False | Some e \<Rightarrow> mobile e) \<and>
      mobile_search_count env > 0)"

definition mobile_stage ::
  "env \<Rightarrow> string list \<Rightarrow> rat \<Rightarrow> string \<Rightarrow> string \<Rightarrow> string option \<Rightarrow> world \<Rightarrow> world option" where
  "mobile_stage env fruits delay browser name dir w =
     (let w1 = acquire env w;
          cur = mobile_progress (st w1) name
      in if \<not> mobile_ok env name (st w1) then Some w1
         else
           let w2 = with_lock env
                      (\<lambda>s. if cur = None
                            then s\<lparr>mobile_progress := (mobile_progress s)(name \<mapsto>
                                     \<lparr>pdone = 0, ptotal = mobile_search_count env\<rparr>)\<rparr>
                            else s) w1;
               built = build_queries fruits (mobile_search_count env);
               mqueries = (if built = [] then default_mobile_queries else built)
           in if have_playwright env
              then
                (let w3 = with_lock env
                            (\<lambda>s. s\<lparr>status := ''Opening Playwright mobile for: '' @ name\<rparr>) w2
                 in if pw_enter_raises env (ticks w3)
                    then mobile_fallback env delay browser name dir mqueries
                           (emit (PlaywrightOpen name False) w3)
                    else playwright_pass env delay name mqueries
                           (emit (PlaywrightOpen name True) w3) \<bind>
                         (\<lambda>w4. Some (emit (PlaywrightClose name) w4)))
              else mobile_fallback env delay browser name dir mqueries w2)"

text \<open>
  One turn of \<open>for profile in profiles\<close> after the check of \<open>is_running\<close> and the
  reading of the profile's name: the desktop pass, the window policy, the mobile stage.
  \<open>desktop_total_of\<close> is \<open>pp.get(name, {}).get("total", len(fruits))\<close>.
\<close>

definition desktop_total_of :: "string list \<Rightarrow> string \<Rightarrow> run_state \<Rightarrow> int" where
  "desktop_total_of fruits name s =
     (case profile_progress s name of None \<Rightarrow> int (length fruits) | Some e \<Rightarrow> ptotal e)"

definition profile_turn ::
  "env \<Rightarrow> string list \<Rightarrow> rat \<Rightarrow> string \<Rightarrow> string \<Rightarrow> string option \<Rightarrow> world \<Rightarrow> world option" where
  "profile_turn env fruits delay browser name dir w =
     (let w1 = with_lock env
                 (\<lambda>s. s\<lparr>current_profile := name,
                        status := ''Opening '' @ browser @ '' for profile: '' @ name\<rparr>) w;
          desktop_total = desktop_total_of fruits name (st w1);
          proc = launch_browser env browser w1;
          w2 = track proc name (emit (LaunchBrowser browser dir proc) w1)
      in sleep_with_pause env 3 w2 \<bind> (\<lambda>w3.
         desktop_pass env delay name (build_queries fruits desktop_total) w3 \<bind> (\<lambda>w4.
         keep_windows_manageable env browser name
           (w4\<lparr>completed_profiles := completed_profiles w4 @ [name]\<rparr>) \<bind>
         mobile_stage env fruits delay browser name dir)))"

text \<open>
  How the body of the outer \<open>try\<close> ends: it runs to its end (also after a
  \<open>break\<close>), or an exception leaves it. \<open>profile["name"]\<close> raises \<open>KeyError\<close> when
  the key is absent.
\<close>

datatype py_exception = KeyError | FailSafeException | OtherException

datatype outcome = Finished | Raised py_exception

fun profiles_loop ::
  "env \<Rightarrow> string list \<Rightarrow> rat \<Rightarrow> string \<Rightarrow> profile list \<Rightarrow> world \<Rightarrow> (outcome \<times> world) option" where
  "profiles_loop env fruits delay browser [] w = Some (Finished, w)"
| "profiles_loop env fruits delay browser (p # ps) w =
     (if \<not> is_running (st (acquire env w)) then Some (Finished, acquire env w)
      else case pname p of
             None \<Rightarrow> Some (Raised KeyError, acquire env w)
           | Some name \<Rightarrow>
               profile_turn env fruits delay browser name (directory p) (acquire env w) \<bind>
               profiles_loop env fruits delay browser ps)"

text \<open>
  The \<open>finally\<close> clause: every tracked handle is terminated, then the inner
  \<open>finally\<close> writes the terminal state under the lock.
\<close>

fun terminate_all :: "env \<Rightarrow> (nat \<times> string) list \<Rightarrow> world \<Rightarrow> world option" where
  "terminate_all env [] w = Some w"
| "terminate_all env ((h, label) # rest) w =
     terminate_process env h w \<bind> terminate_all env rest"

definition terminal_state :: "run_state \<Rightarrow> run_state" where
  "terminal_state s =
     s\<lparr>is_running := False,
       status := (if completed s \<ge> total s then ''Automation completed''
                  else ''Automation stopped''),
       current_search := [],
       current_profile := [],
       is_paused := False\<rparr>"

definition teardown :: "env \<Rightarrow> world \<Rightarrow> world option" where
  "teardown env w =
     terminate_all env (browser_processes w) w \<bind> (\<lambda>w'. Some (with_lock env terminal_state w'))"

text \<open>
  \<open>automation_worker(fruits, delay, browser, profiles)\<close>: both \<open>except\<close> clauses
  only print, so every outcome of the body continues with the \<open>finally\<close> clause.
\<close>

definition worker_body ::
  "env \<Rightarrow> string list \<Rightarrow> rat \<Rightarrow> string \<Rightarrow> profile list \<Rightarrow> world \<Rightarrow> (outcome \<times> world) option" where
  "worker_body env fruits delay browser profiles w =
     profiles_loop env fruits delay browser
       (if profiles = [] then [\<lparr>pname = Some ''Default'', directory = None\<rparr>] else profiles)
       (w\<lparr>completed_l := 0, browser_processes := [], completed_profiles := []\<rparr>)"

definition automation_worker ::
  "env \<Rightarrow> string list \<Rightarrow> rat \<Rightarrow> string \<Rightarrow> profile list \<Rightarrow> world \<Rightarrow> world option" where
  "automation_worker env fruits delay browser profiles w =
     worker_body env fruits delay browser profiles w \<bind> (\<lambda>(oc, w'). teardown env w')"

text \<open>
  The level \<open>start_automation\<close> reads for a profile:
  \<open>int(get_or_init_profile(info, name).get("level", 1))\<close>.
\<close>

definition profile_level :: "string \<Rightarrow> profile_info \<Rightarrow> string \<Rightarrow> int" where
  "profile_level today info name =
     get_default (e_level (fst (get_or_init_profile today info name))) 1"

text \<open>A profile store and a start request used as concrete inputs below.\<close>

definition info_fixture :: profile_info where
  "info_fixture = Map.empty(''Profile 1'' \<mapsto>
     \<lparr>e_date = Some ''2025-01-14'', e_level = Some 2, totalSearchPC = Some 7,
      totalSearchMobile = Some 3, e_error = None\<rparr>)"

definition request_fixture :: start_request where
  "request_fixture =
     \<lparr>rq_fruits = [''kiwi'', ''plum'', ''fig''], rq_delay = 0, rq_browser = ''chrome'',
      rq_selectedProfiles = [\<lparr>pname = Some ''Profile 1'', directory = Some ''Profile 1''\<rparr>,
                             \<lparr>pname = Some ''Default'', directory = Some ''Default''\<rparr>],
      rq_useDefaultIfNoProfile = False, rq_mobileEnabled = True\<rparr>"

text \<open>
  A state in the middle of a run, used as a concrete input below: the profile
  \<open>Default\<close> was selected twice, and its first turn is over.
\<close>

definition state_fixture :: run_state where
  "state_fixture = initial_state\<lparr>is_running := True, total := 20, completed := 10,
     progress := 50,
     profile_progress := Map.empty(''Default'' \<mapsto> \<lparr>pdone = 10, ptotal = 10\<rparr>),
     mobile_progress := Map.empty(''Default'' \<mapsto> \<lparr>pdone = 3, ptotal = 20\<rparr>)\<rparr>"

section \<open>Notions used in the statements\<close>

text \<open>
  \<open>ctl_only s s'\<close>: the two states differ at most in what the control endpoints
  write (\<open>is_running\<close>, \<open>is_paused\<close>, \<open>status\<close>), and \<open>is_running\<close> has not
  become true. \<open>paced w w'\<close>: from \<open>w\<close> to
  \<open>w'\<close> the worker has only taken the lock and slept, every sleep lasting between 0 and
  0.1 seconds, and each sleep but the first was preceded by a lock acquisition of its
  own (ten times the elapsed time is at most the number of acquisitions).
\<close>

definition ctl_only :: "run_state \<Rightarrow> run_state \<Rightarrow> bool" where
  "ctl_only s s' \<longleftrightarrow>
     s' = s\<lparr>is_running := is_running s', is_paused := is_paused s', status := status s'\<rparr> \<and>
     (is_running s' \<longrightarrow> is_running s)"

definition paced :: "world \<Rightarrow> world \<Rightarrow> bool" where
  "paced w w' \<longleftrightarrow>
     ctl_only (st w) (st w') \<and> store w' = store w \<and> completed_l w' = completed_l w \<and>
     browser_processes w' = browser_processes w \<and>
     completed_profiles w' = completed_profiles w \<and>
     ticks w \<le> ticks w' \<and> now w \<le> now w' \<and>
     10 * now w' - of_nat (ticks w') \<le> 10 * now w - of_nat (ticks w) \<and>
     (\<exists>ds. trace w' = trace w @ map Slept ds \<and> (\<forall>d \<in> set ds. 0 \<le> d \<and> d \<le> 1 / 10))"

text \<open>One blocked round of \<open>_wait_if_paused\<close>: a poll under the lock, then \<open>time.sleep(0.1)\<close>.\<close>

definition wait_round :: "env \<Rightarrow> world \<Rightarrow> world" where
  "wait_round env w = time_sleep (1 / 10) (acquire env w)"

text \<open>
  Concrete inputs used below: an environment in which nothing fails and no request
  arrives, one in which a pause is served before the worker's first lock acquisition
  and a stop before its fourth, and a world in the middle of a run.
\<close>

definition quiet_env :: env where
  "quiet_env =
     \<lparr>mobile_search_count = 20, have_playwright = False, ctl = (\<lambda>n. []),
      popen_ok = (\<lambda>n. True), gui_raises = (\<lambda>n. False), pw_enter_raises = (\<lambda>n. False),
      pw_search_raises = (\<lambda>n. False), store_raises = (\<lambda>n. False),
      proc_raises = (\<lambda>n. False), proc_alive = (\<lambda>n. False), rand = (\<lambda>n. 0),
      today_str = (\<lambda>n. ''2025-01-15'')\<rparr>"

definition pause_stop_env :: env where
  "pause_stop_env =
     quiet_env\<lparr>ctl := (\<lambda>n. if n = 0 then [Pause] else if n = 3 then [Stop] else [])\<rparr>"

definition world_fixture :: world where
  "world_fixture =
     \<lparr>st = state_fixture, now = 0, ticks = 0, store = Map.empty, trace = [],
      completed_l = 10, browser_processes = [], completed_profiles = [''Default'']\<rparr>"

text \<open>The world in which the worker thread starts, given the state and the store.\<close>

definition start_world :: "run_state \<Rightarrow> profile_info \<Rightarrow> world" where
  "start_world s info =
     \<lparr>st = s, now = 0, ticks = 0, store = info, trace = [],
      completed_l = 0, browser_processes = [], completed_profiles = []\<rparr>"

text \<open>
  Progress entries over a stretch of a run. \<open>entries_capped m\<close>: every entry of the
  dictionary has \<open>done \<le> total\<close>. \<open>entries_grow m m'\<close>: no key of \<open>m\<close> is missing
  in \<open>m'\<close>, and every such entry of \<open>m\<close> has in \<open>m'\<close> the same total and a \<open>done\<close>
  that has not decreased and does not exceed the total. \<open>advances s s'\<close>: what a
  run never changes (\<open>total\<close>, the mobile switch, the eligibility) is the same,
  \<open>is_running\<close> has not become true, and both progress dictionaries have grown and
  stay capped.
\<close>

definition entries_capped :: "(string \<rightharpoonup> progress_entry) \<Rightarrow> bool" where
  "entries_capped m \<longleftrightarrow> (\<forall>p e. m p = Some e \<longrightarrow> pdone e \<le> ptotal e)"

definition entries_grow ::
  "(string \<rightharpoonup> progress_entry) \<Rightarrow> (string \<rightharpoonup> progress_entry) \<Rightarrow> bool" where
  "entries_grow m m' \<longleftrightarrow>
     dom m \<subseteq> dom m' \<and>
     (\<forall>p e. m p = Some e \<longrightarrow> pdone e \<le> ptotal e \<longrightarrow>
        (\<exists>e'. m' p = Some e' \<and> ptotal e' = ptotal e \<and> pdone e \<le> pdone e' \<and>
              pdone e' \<le> ptotal e'))"

definition capped :: "run_state \<Rightarrow> bool" where
  "capped s \<longleftrightarrow> entries_capped (profile_progress s) \<and> entries_capped (mobile_progress s)"

definition advances :: "run_state \<Rightarrow> run_state \<Rightarrow> bool" where
  "advances s s' \<longleftrightarrow>
     total s' = total s \<and> mobile_enabled s' = mobile_enabled s \<and>
     profile_eligibility s' = profile_eligibility s \<and>
     (is_running s' \<longrightarrow> is_running s) \<and>
     entries_grow (profile_progress s) (profile_progress s') \<and>
     entries_grow (mobile_progress s) (mobile_progress s') \<and>
     (capped s \<longrightarrow> capped s')"

text \<open>
  \<open>evolves w w'\<close>: the state has advanced, the lock count and the worker's local
  \<open>completed\<close> have not decreased, and the events of \<open>w\<close> are the first events of
  \<open>w'\<close>.
\<close>

definition evolves :: "world \<Rightarrow> world \<Rightarrow> bool" where
  "evolves w w' \<longleftrightarrow>
     advances (st w) (st w') \<and> ticks w \<le> ticks w' \<and> completed_l w \<le> completed_l w' \<and>
     (\<exists>es. trace w' = trace w @ es)"

text \<open>
  \<open>steady_run b env w\<close>: from \<open>w\<close> on no pause can hold the worker (the run is
  stopped already, or it is not paused and no pause request is served any more); with
  \<open>b\<close>, moreover, the run is not stopped and no stop request is served any more.
\<close>

definition steady_run :: "bool \<Rightarrow> env \<Rightarrow> world \<Rightarrow> bool" where
  "steady_run b env w \<longleftrightarrow>
     (\<not> is_running (st w) \<or>
      (\<not> is_paused (st w) \<and> (\<forall>n \<ge> ticks w. Pause \<notin> set (ctl env n)))) \<and>
     (b \<longrightarrow> is_running (st w) \<and> (\<forall>n \<ge> ticks w. Stop \<notin> set (ctl env n)))"

text \<open>\<open>pool_kept w w'\<close>: the two lists of the window policy are the same.\<close>

definition pool_kept :: "world \<Rightarrow> world \<Rightarrow> bool" where
  "pool_kept w w' \<longleftrightarrow>
     browser_processes w' = browser_processes w \<and>
     completed_profiles w' = completed_profiles w"

text \<open>
  Two ways to speak about a step \<open>F\<close> of the worker. \<open>yields R F\<close>: whenever \<open>F\<close>
  returns, its result is related to its argument by \<open>R\<close>. \<open>runs b env F\<close>: from a world
  in a steady run, \<open>F\<close> returns, in a world in a steady run.
\<close>

definition yields :: "(world \<Rightarrow> world \<Rightarrow> bool) \<Rightarrow> (world \<Rightarrow> world option) \<Rightarrow> bool" where
  "yields R F \<longleftrightarrow> (\<forall>w w'. F w = Some w' \<longrightarrow> R w w')"

definition runs :: "bool \<Rightarrow> env \<Rightarrow> (world \<Rightarrow> world option) \<Rightarrow> bool" where
  "runs b env F \<longleftrightarrow>
     (\<forall>w. steady_run b env w \<longrightarrow> (\<exists>w'. F w = Some w' \<and> steady_run b env w'))"

text \<open>\<open>searching w w'\<close>: the run has evolved and the window policy's lists are the same.\<close>

definition searching :: "world \<Rightarrow> world \<Rightarrow> bool" where
  "searching w w' \<longleftrightarrow> evolves w w' \<and> pool_kept w w'"

text \<open>
  \<open>same_counts s s'\<close>: the counters and dictionaries of the state are the same (the
  two states may differ in the flags and in the three text fields). \<open>idle w w'\<close>:
  between \<open>w\<close> and \<open>w'\<close> only the control endpoints have written to the state, and the
  worker's local variables and the profile store are the same.
\<close>

definition same_counts :: "run_state \<Rightarrow> run_state \<Rightarrow> bool" where
  "same_counts s s' \<longleftrightarrow>
     completed s' = completed s \<and> total s' = total s \<and> progress s' = progress s \<and>
     profile_progress s' = profile_progress s \<and> mobile_progress s' = mobile_progress s \<and>
     profile_eligibility s' = profile_eligibility s \<and> mobile_enabled s' = mobile_enabled s"

definition idle :: "world \<Rightarrow> world \<Rightarrow> bool" where
  "idle w w' \<longleftrightarrow>
     ctl_only (st w) (st w') \<and> store w' = store w \<and> completed_l w' = completed_l w \<and>
     browser_processes w' = browser_processes w \<and>
     completed_profiles w' = completed_profiles w \<and> ticks w \<le> ticks w'"

text \<open>
  A request that selects one profile whose \<open>name\<close> is the empty string and whose
  \<open>directory\<close> is \<open>Profile 1\<close>, with eleven topics.
\<close>

definition nameless_request :: start_request where
  "nameless_request =
     \<lparr>rq_fruits = [''apple'', ''banana'', ''cherry'', ''date'', ''elderberry'', ''fig'',
                   ''grape'', ''kiwi'', ''lemon'', ''mango'', ''nectarine''],
      rq_delay = 3, rq_browser = ''chrome'',
      rq_selectedProfiles = [\<lparr>pname = Some [], directory = Some ''Profile 1''\<rparr>],
      rq_useDefaultIfNoProfile = False, rq_mobileEnabled = False\<rparr>"



text \<open>
  A request that selects three profiles with mobile mode enabled, and a profile store
  in which the three are at level 2.
\<close>

definition level2_entry :: p_entry where
  "level2_entry = \<lparr>e_date = Some ''2025-01-15'', e_level = Some 2, totalSearchPC = Some 0,
     totalSearchMobile = Some 0, e_error = None\<rparr>"

definition level2_info :: profile_info where
  "level2_info = Map.empty(''Profile 1'' \<mapsto> level2_entry, ''Profile 2'' \<mapsto> level2_entry,
     ''Profile 3'' \<mapsto> level2_entry)"

definition three_profiles_request :: start_request where
  "three_profiles_request =
     \<lparr>rq_fruits = [''kiwi'', ''plum'', ''fig''], rq_delay = 3, rq_browser = ''chrome'',
      rq_selectedProfiles = [\<lparr>pname = Some ''Profile 1'', directory = Some ''Profile 1''\<rparr>,
                             \<lparr>pname = Some ''Profile 2'', directory = Some ''Profile 2''\<rparr>,
                             \<lparr>pname = Some ''Profile 3'', directory = Some ''Profile 3''\<rparr>],
      rq_useDefaultIfNoProfile = False, rq_mobileEnabled = True\<rparr>"



definition log_of :: "(event \<Rightarrow> 'a list) \<Rightarrow> world \<Rightarrow> 'a list" where
  "log_of g w = concat (map g (trace w))"

definition kept :: "(event \<Rightarrow> 'a list) \<Rightarrow> world \<Rightarrow> world \<Rightarrow> bool" where
  "kept g w w' \<longleftrightarrow> mobile_progress (st w') = mobile_progress (st w) \<and> log_of g w' = log_of g w"



section \<open>Properties of the query sequencer\<close>

declare build_loop.simps [simp del]

lemma build_loop_length:
  "length (build_loop base count out i) = max (length out) (nat count)"
proof (induction base count out i rule: build_loop.induct)
  case (1 base count out i)
  show ?case
  proof (cases "int (length out) < count")
    case True
    then show ?thesis
      using "1.IH" by (subst build_loop.simps) (auto simp add: max_def)
  next
    case False
    then show ?thesis
      by (subst build_loop.simps) (auto simp add: max_def)
  qed
qed

lemma build_loop_nth:
  "k < length (build_loop base count out i) \<Longrightarrow>
   build_loop base count out i ! k =
     (if k < length out then out ! k else base ! ((i + (k - length out)) mod length base))"
proof (induction base count out i arbitrary: k rule: build_loop.induct)
  case (1 base count out i)
  show ?case
  proof (cases "int (length out) < count")
    case True
    let ?out' = "out @ [base ! (i mod length base)]"
    have unf: "build_loop base count out i = build_loop base count ?out' (i + 1)"
      using True by (subst build_loop.simps) simp
    have k': "k < length (build_loop base count ?out' (i + 1))"
      using "1.prems" unf by simp
    have step: "build_loop base count ?out' (i + 1) ! k =
        (if k < length ?out' then ?out' ! k
         else base ! ((i + 1 + (k - length ?out')) mod length base))"
      using "1.IH" [OF True k'] .
    show ?thesis
    proof (cases "k < length out")
      case True
      then show ?thesis using unf step by (simp add: nth_append)
    next
      case False
      note nlt = False
      show ?thesis
      proof (cases "k = length out")
        case True
        then show ?thesis using unf step by (simp add: nth_append)
      next
        case False
        then have "length out < k" using nlt by simp
        then have "i + 1 + (k - length ?out') = i + (k - length out)" by simp
        then show ?thesis using unf step nlt False by simp
      qed
    qed
  next
    case False
    then have unf: "build_loop base count out i = out"
      by (subst build_loop.simps) simp
    then show ?thesis using "1.prems" by simp
  qed
qed

text \<open>
  Claim C1. For a non-empty \<open>base\<close> and \<open>count \<ge> 0\<close>, \<open>_build_queries(base, count)\<close>
  has exactly \<open>count\<close> elements and its \<open>i\<close>-th element is \<open>base[i % len(base)]\<close>; for
  the empty \<open>base\<close> the result is empty for every \<open>count\<close>.
\<close>

theorem build_queries_cycles:
  "(base \<noteq> [] \<longrightarrow> 0 \<le> count \<longrightarrow>
      length (build_queries base count) = nat count \<and>
      (\<forall>i < nat count. build_queries base count ! i = base ! (i mod length base))) \<and>
   build_queries [] count = []"
proof -
  have empty: "build_queries [] count = []"
    by (simp add: build_queries_def)
  have main: "length (build_queries base count) = nat count \<and>
      (\<forall>i < nat count. build_queries base count ! i = base ! (i mod length base))"
    if ne: "base \<noteq> []" and nonneg: "0 \<le> count"
  proof -
    have len: "length (build_loop base count [] 0) = nat count"
      by (simp add: build_loop_length)
    have bq: "build_queries base count = build_loop base count [] 0"
      using ne nonneg len by (simp add: build_queries_def py_prefix_def)
    have "build_queries base count ! i = base ! (i mod length base)" if "i < nat count" for i
      using that len build_loop_nth [of i base count "[]" 0] bq by simp
    then show ?thesis using bq len by simp
  qed
  show ?thesis using empty main by blast
qed

theorem build_queries_cycles_witness:
  "[''kiwi'', ''plum'', ''fig''] \<noteq> [] \<and> (0::int) \<le> 5 \<and>
   length (build_queries [''kiwi'', ''plum'', ''fig''] 5) = nat 5 \<and>
   build_queries [''kiwi'', ''plum'', ''fig''] 5 ! 4 = ''plum'' \<and>
   build_queries [] 5 = []"
proof -
  have i: "(4::nat) < nat 5" by simp
  have "length (build_queries [''kiwi'', ''plum'', ''fig''] 5) = nat 5 \<and>
        build_queries [''kiwi'', ''plum'', ''fig''] 5 ! 4 = [''kiwi'', ''plum'', ''fig''] ! (4 mod 3)"
    using build_queries_cycles [of "[''kiwi'', ''plum'', ''fig'']" 5] i by simp
  moreover have "build_queries [] 5 = []"
    using build_queries_cycles [of "[]" 5] by simp
  ultimately show ?thesis by simp
qed

section \<open>Properties of the control endpoints\<close>

text \<open>
  Claim C10. While \<open>is_running\<close> is false, the stop, pause and resume endpoints leave
  the whole shared state as it is, and each of the three answers with its
  acknowledgement message in every state.
\<close>

theorem idle_endpoints_frame:
  "(\<not> is_running s \<longrightarrow>
      fst (stop_automation s) = s \<and> fst (pause_automation s) = s \<and>
      fst (resume_automation s) = s) \<and>
   snd (stop_automation s) = ''Stopping'' \<and>
   snd (pause_automation s) = ''Paused'' \<and>
   snd (resume_automation s) = ''Resumed''"
  by (simp add: stop_automation_def pause_automation_def resume_automation_def)

theorem idle_endpoints_frame_witness:
  "\<not> is_running initial_state \<and>
   fst (stop_automation initial_state) = initial_state \<and>
   fst (pause_automation initial_state) = initial_state \<and>
   fst (resume_automation initial_state) = initial_state \<and>
   snd (stop_automation initial_state) = ''Stopping''"
  using idle_endpoints_frame [of initial_state] by (simp add: initial_state_def)

section \<open>Properties of the start of a run\<close>

lemma profile_level_range: "profile_level today info name = 1 \<or> profile_level today info name = 2"
  by (simp add: profile_level_def get_or_init_profile_def get_default_def Let_def)

lemma profile_level_init:
  "profile_level today (snd (get_or_init_profile today info m)) n = profile_level today info n"
  by (simp add: profile_level_def get_or_init_profile_def get_default_def Let_def empty_entry_def
      split: option.splits)

lemma quota_step_info:
  "profile_level today (q_info (quota_step today mc me acc p)) n = profile_level today (q_info acc) n"
  by (simp add: quota_step_def Let_def profile_level_init)

lemma quota_step_fields:
  "q_total (quota_step today mc me acc p) =
     q_total acc + desktop_quota (profile_level today (q_info acc) (resolved_name p))"
  "q_progress (quota_step today mc me acc p) =
     (q_progress acc)(resolved_name p \<mapsto>
        \<lparr>pdone = 0, ptotal = desktop_quota (profile_level today (q_info acc) (resolved_name p))\<rparr>)"
  "q_eligibility (quota_step today mc me acc p) =
     (q_eligibility acc)(resolved_name p \<mapsto>
        \<lparr>mobile = (profile_level today (q_info acc) (resolved_name p) = 2),
         reason = (if profile_level today (q_info acc) (resolved_name p) = 2 then [] else ''level < 2'')\<rparr>)"
  "q_mobile (quota_step today mc me acc p) =
     (if me \<and> profile_level today (q_info acc) (resolved_name p) = 2 \<and> mc > 0
      then (q_mobile acc)(resolved_name p \<mapsto> \<lparr>pdone = 0, ptotal = mc\<rparr>)
      else q_mobile acc)"
  by (simp_all add: quota_step_def Let_def profile_level_def)

lemma quota_loop_info:
  "profile_level today (q_info (quota_loop today mc me ps acc)) n = profile_level today (q_info acc) n"
  by (induction ps arbitrary: acc) (simp_all add: quota_step_info)

lemma quota_loop_total:
  "q_total (quota_loop today mc me ps acc) =
     q_total acc + (\<Sum>p\<leftarrow>ps. desktop_quota (profile_level today (q_info acc) (resolved_name p)))"
  by (induction ps arbitrary: acc) (simp_all add: quota_step_fields quota_step_info)

lemma quota_loop_progress:
  "q_progress (quota_loop today mc me ps acc) n =
     (if n \<in> resolved_name ` set ps
      then Some \<lparr>pdone = 0, ptotal = desktop_quota (profile_level today (q_info acc) n)\<rparr>
      else q_progress acc n)"
  by (induction ps arbitrary: acc) (auto simp add: quota_step_fields quota_step_info)

lemma quota_loop_eligibility:
  "q_eligibility (quota_loop today mc me ps acc) n =
     (if n \<in> resolved_name ` set ps
      then Some \<lparr>mobile = (profile_level today (q_info acc) n = 2),
                 reason = (if profile_level today (q_info acc) n = 2 then [] else ''level < 2'')\<rparr>
      else q_eligibility acc n)"
  by (induction ps arbitrary: acc) (auto simp add: quota_step_fields quota_step_info)

lemma quota_loop_mobile:
  "q_mobile (quota_loop today mc me ps acc) n =
     (if n \<in> resolved_name ` set ps \<and> me \<and> profile_level today (q_info acc) n = 2 \<and> mc > 0
      then Some \<lparr>pdone = 0, ptotal = mc\<rparr>
      else q_mobile acc n)"
  by (induction ps arbitrary: acc) (auto simp add: quota_step_fields quota_step_info)

text \<open>
  Claim C7. When \<open>start_automation\<close> accepts a request, every selected profile has
  the desktop quota 10 at level 1 and 32 at level 2 (a level is 1 or 2), is
  mobile-eligible exactly at level 2, and has a \<open>mobile_progress\<close> entry, with the
  configured mobile total, exactly when mobile is enabled, the profile is eligible and
  the configured count is positive; no other name has such an entry; the run's total is
  the sum of the quotas of the selected profiles.
\<close>

theorem start_quotas:
  assumes "start_automation today mc rq memory info s0 = Inr r"
  shows "(\<forall>p \<in> set (sr_profiles r).
            profile_progress (sr_state r) (resolved_name p) =
              Some \<lparr>pdone = 0,
                    ptotal = (if profile_level today info (resolved_name p) = 1 then 10 else 32)\<rparr> \<and>
            (profile_level today info (resolved_name p) = 1 \<or>
             profile_level today info (resolved_name p) = 2) \<and>
            map_option mobile (profile_eligibility (sr_state r) (resolved_name p)) =
              Some (profile_level today info (resolved_name p) = 2) \<and>
            mobile_progress (sr_state r) (resolved_name p) =
              (if rq_mobileEnabled rq \<and> profile_level today info (resolved_name p) = 2 \<and> mc > 0
               then Some \<lparr>pdone = 0, ptotal = mc\<rparr> else None)) \<and>
         total (sr_state r) =
           (\<Sum>p\<leftarrow>sr_profiles r.
              if profile_level today info (resolved_name p) = 1 then 10 else 32) \<and>
         (\<forall>n. n \<notin> resolved_name ` set (sr_profiles r) \<longrightarrow> mobile_progress (sr_state r) n = None)"
proof -
  define ps where "ps = resolve_profiles (rq_browser rq) (rq_selectedProfiles rq) memory
                         (rq_useDefaultIfNoProfile rq)"
  define acc where "acc = quota_loop today mc (rq_mobileEnabled rq) ps (empty_quotas info)"
  have ok: "\<not> is_running s0" "rq_fruits rq \<noteq> []"
    using assms by (auto simp add: start_automation_def split: if_splits)
  have r: "sr_profiles r = ps" "total (sr_state r) = q_total acc"
    "profile_progress (sr_state r) = q_progress acc"
    "profile_eligibility (sr_state r) = q_eligibility acc"
    "mobile_progress (sr_state r) = q_mobile acc"
    using assms ok by (auto simp add: start_automation_def Let_def ps_def acc_def)
  have i: "q_info (empty_quotas info) = info" "q_total (empty_quotas info) = 0"
    "q_mobile (empty_quotas info) = Map.empty"
    by (simp_all add: empty_quotas_def)
  have t: "total (sr_state r) =
      (\<Sum>p\<leftarrow>sr_profiles r. if profile_level today info (resolved_name p) = 1 then 10 else 32)"
    unfolding r acc_def quota_loop_total i by (simp add: desktop_quota_def)
  have per: "profile_progress (sr_state r) (resolved_name p) =
        Some \<lparr>pdone = 0, ptotal = (if profile_level today info (resolved_name p) = 1 then 10 else 32)\<rparr> \<and>
      (profile_level today info (resolved_name p) = 1 \<or> profile_level today info (resolved_name p) = 2) \<and>
      map_option mobile (profile_eligibility (sr_state r) (resolved_name p)) =
        Some (profile_level today info (resolved_name p) = 2) \<and>
      mobile_progress (sr_state r) (resolved_name p) =
        (if rq_mobileEnabled rq \<and> profile_level today info (resolved_name p) = 2 \<and> mc > 0
         then Some \<lparr>pdone = 0, ptotal = mc\<rparr> else None)"
    if "p \<in> set (sr_profiles r)" for p
  proof -
    have m: "resolved_name p \<in> resolved_name ` set ps" using that r(1) by simp
    show ?thesis
      unfolding r acc_def quota_loop_progress quota_loop_eligibility quota_loop_mobile i
      using m profile_level_range [of today info "resolved_name p"]
      by (simp add: desktop_quota_def)
  qed
  have out: "mobile_progress (sr_state r) n = None" if "n \<notin> resolved_name ` set (sr_profiles r)" for n
    unfolding r(5) acc_def quota_loop_mobile i using that r(1) by simp
  show ?thesis using per t out by blast
qed

theorem start_quotas_witness:
  "\<exists>r. start_automation ''2025-01-15'' 20 request_fixture (\<lambda>b. []) info_fixture initial_state = Inr r \<and>
       total (sr_state r) = 42 \<and>
       profile_progress (sr_state r) ''Profile 1'' = Some \<lparr>pdone = 0, ptotal = 32\<rparr> \<and>
       profile_progress (sr_state r) ''Default'' = Some \<lparr>pdone = 0, ptotal = 10\<rparr> \<and>
       mobile_progress (sr_state r) ''Profile 1'' = Some \<lparr>pdone = 0, ptotal = 20\<rparr> \<and>
       mobile_progress (sr_state r) ''Default'' = None"
proof -
  obtain r where r: "start_automation ''2025-01-15'' 20 request_fixture (\<lambda>b. []) info_fixture initial_state = Inr r"
    by (simp add: start_automation_def request_fixture_def initial_state_def Let_def)
  have ps: "sr_profiles r = rq_selectedProfiles request_fixture"
    using r by (auto simp add: start_automation_def request_fixture_def initial_state_def Let_def
        resolve_profiles_def)
  have l1: "profile_level ''2025-01-15'' info_fixture ''Profile 1'' = 2"
    and l2: "profile_level ''2025-01-15'' info_fixture ''Default'' = 1"
    by (simp_all add: profile_level_def get_or_init_profile_def info_fixture_def get_default_def
        empty_entry_def Let_def)
  have n: "resolved_name \<lparr>pname = Some ''Profile 1'', directory = Some ''Profile 1''\<rparr> = ''Profile 1''"
    "resolved_name \<lparr>pname = Some ''Default'', directory = Some ''Default''\<rparr> = ''Default''"
    by (simp_all add: resolved_name_def str_or_def)
  show ?thesis
    using start_quotas [OF r] r ps l1 l2 n
    by (intro exI [of _ r]) (simp add: request_fixture_def)
qed

section \<open>Properties of the progress counters\<close>

lemma bump_done_fields:
  "ptotal (bump_done e) = ptotal e" "pdone (bump_done e) = min (pdone e + 1) (ptotal e)"
  by (simp_all add: bump_done_def)

lemma bump_done_iterated:
  "0 \<le> t \<Longrightarrow> (bump_done ^^ n) \<lparr>pdone = 0, ptotal = t\<rparr> = \<lparr>pdone = min (int n) t, ptotal = t\<rparr>"
  by (induction n) (auto simp add: bump_done_def min_def)

section \<open>Properties of the pause helpers\<close>

lemma ctl_only_refl: "ctl_only s s"
  by (simp add: ctl_only_def)

lemma ctl_only_trans: "ctl_only s s' \<Longrightarrow> ctl_only s' s'' \<Longrightarrow> ctl_only s s''"
  unfolding ctl_only_def
  by (cases s, cases s', cases s'') auto

lemma ctl_only_serve: "ctl_only s (serve c s)"
  by (cases c)
     (simp_all add: serve_def ctl_only_def stop_automation_def pause_automation_def
        resume_automation_def)

lemma ctl_only_serve_all: "ctl_only s (serve_all cs s)"
proof (induction cs arbitrary: s)
  case Nil
  show ?case by (simp add: serve_all_def ctl_only_refl)
next
  case (Cons c cs)
  have "ctl_only (serve c s) (serve_all cs (serve c s))" by (rule Cons.IH)
  then have "ctl_only s (serve_all cs (serve c s))"
    using ctl_only_serve ctl_only_trans by blast
  then show ?case by (simp add: serve_all_def)
qed

lemma paced_refl: "paced w w"
  unfolding paced_def using ctl_only_refl by (auto intro: exI [of _ "[]"])

lemma paced_trans:
  assumes "paced w w'" and "paced w' w''"
  shows "paced w w''"
proof -
  obtain ds where ds: "trace w' = trace w @ map Slept ds" "\<forall>d \<in> set ds. 0 \<le> d \<and> d \<le> 1 / 10"
    using assms(1) unfolding paced_def by blast
  obtain es where es: "trace w'' = trace w' @ map Slept es" "\<forall>d \<in> set es. 0 \<le> d \<and> d \<le> 1 / 10"
    using assms(2) unfolding paced_def by blast
  have tr: "\<exists>xs. trace w'' = trace w @ map Slept xs \<and> (\<forall>d \<in> set xs. 0 \<le> d \<and> d \<le> 1 / 10)"
    using ds es by (intro exI [of _ "ds @ es"]) auto
  have t: "ticks w \<le> ticks w''" and n: "now w \<le> now w''"
    and p: "10 * now w'' - of_nat (ticks w'') \<le> 10 * now w - of_nat (ticks w)"
    using assms unfolding paced_def by linarith+
  have c: "ctl_only (st w) (st w'')"
    using assms ctl_only_trans unfolding paced_def by blast
  have rest: "store w'' = store w" "completed_l w'' = completed_l w"
    "browser_processes w'' = browser_processes w" "completed_profiles w'' = completed_profiles w"
    using assms unfolding paced_def by simp_all
  show ?thesis
    unfolding paced_def using c rest t n p tr by blast
qed

lemma paced_acquire: "paced w (acquire env w)"
  unfolding paced_def acquire_def using ctl_only_serve_all
  by (auto intro: exI [of _ "[]"])

lemma ticks_acquire: "ticks (acquire env w) = Suc (ticks w)"
  by (simp add: acquire_def)

lemma now_acquire: "now (acquire env w) = now w"
  by (simp add: acquire_def)

lemma paced_time_sleep:
  assumes "paced w w'" and "0 \<le> d" and "d \<le> 1 / 10"
    and "10 * now w' - of_nat (ticks w') + 1 \<le> 10 * now w - of_nat (ticks w)"
  shows "paced w (time_sleep d w')"
proof -
  obtain ds where ds: "trace w' = trace w @ map Slept ds" "\<forall>d \<in> set ds. 0 \<le> d \<and> d \<le> 1 / 10"
    using assms(1) unfolding paced_def by blast
  have tr: "\<exists>xs. trace (time_sleep d w') = trace w @ map Slept xs \<and> (\<forall>d \<in> set xs. 0 \<le> d \<and> d \<le> 1 / 10)"
    using ds assms(2,3) by (intro exI [of _ "ds @ [d]"]) (auto simp add: time_sleep_def emit_def)
  have p: "10 * now (time_sleep d w') - of_nat (ticks (time_sleep d w')) \<le> 10 * now w - of_nat (ticks w)"
    using assms(3,4) by (simp add: time_sleep_def emit_def)
  have n: "now w \<le> now (time_sleep d w')"
    using assms(1,2) by (simp add: paced_def time_sleep_def emit_def)
  have rest: "ctl_only (st w) (st (time_sleep d w'))" "store (time_sleep d w') = store w"
    "completed_l (time_sleep d w') = completed_l w"
    "browser_processes (time_sleep d w') = browser_processes w"
    "completed_profiles (time_sleep d w') = completed_profiles w"
    "ticks w \<le> ticks (time_sleep d w')"
    using assms(1) by (simp_all add: paced_def time_sleep_def emit_def)
  show ?thesis
    unfolding paced_def using rest n p tr by blast
qed

lemma paced_nap_acquire:
  assumes "0 \<le> d" and "d \<le> 1 / 10"
  shows "paced w (time_sleep d (acquire env w))"
  using paced_acquire assms
  by (rule paced_time_sleep) (simp add: ticks_acquire now_acquire)

lemma wait_if_paused_paced:
  assumes "wait_if_paused env w = Some w'"
  shows "paced w w' \<and> 10 * now w' - of_nat (ticks w') + 1 \<le> 10 * now w - of_nat (ticks w)"
proof (rule wait_if_paused.raw_induct
    [where P = "\<lambda>env w w'. paced w w' \<and>
       10 * now w' - of_nat (ticks w') + 1 \<le> 10 * now w - of_nat (ticks w)", OF _ assms])
  fix wait env w w'
  assume IH: "\<And>a b y. wait a b = Some y \<Longrightarrow>
      paced b y \<and> 10 * now y - of_nat (ticks y) + 1 \<le> 10 * now b - of_nat (ticks b)"
    and body: "(if \<not> is_running (st (acquire env w)) \<or> \<not> is_paused (st (acquire env w))
      then Some (acquire env w)
      else wait env (time_sleep (1 / 10) (acquire env w))) = Some w'"
  show "paced w w' \<and> 10 * now w' - of_nat (ticks w') + 1 \<le> 10 * now w - of_nat (ticks w)"
  proof (cases "\<not> is_running (st (acquire env w)) \<or> \<not> is_paused (st (acquire env w))")
    case True
    then have "w' = acquire env w" using body by simp
    then show ?thesis using paced_acquire by (simp add: ticks_acquire now_acquire)
  next
    case False
    let ?w1 = "time_sleep (1 / 10) (acquire env w)"
    have "wait env ?w1 = Some w'"
      using False body by simp
    then have step: "paced ?w1 w' \<and>
        10 * now w' - of_nat (ticks w') + 1 \<le> 10 * now ?w1 - of_nat (ticks ?w1)"
      by (rule IH)
    have first: "paced w ?w1"
      by (rule paced_nap_acquire) simp_all
    have "10 * now ?w1 - of_nat (ticks ?w1) = 10 * now w - of_nat (ticks w)"
      by (simp add: time_sleep_def emit_def ticks_acquire now_acquire)
    then show ?thesis using step first paced_trans by auto
  qed
qed

lemma sleep_loop_paced:
  assumes "sleep_loop env deadline w = Some w'"
  shows "paced w w'"
proof (rule sleep_loop.raw_induct [where P = "\<lambda>env deadline w w'. paced w w'", OF _ assms])
  fix loop env deadline w w'
  assume IH: "\<And>a b c y. loop a b c = Some y \<Longrightarrow> paced c y"
    and body: "(if now w < deadline
      then if \<not> is_running (st (acquire env w)) then Some (acquire env w)
           else wait_if_paused env (acquire env w) \<bind>
                (\<lambda>w'. loop env deadline
                       (time_sleep (min (1 / 10) (max 0 (deadline - now w'))) w'))
      else Some w) = Some w'"
  show "paced w w'"
  proof (cases "now w < deadline")
    case False
    then show ?thesis using body paced_refl by simp
  next
    case True
    note lt = True
    show ?thesis
    proof (cases "is_running (st (acquire env w))")
      case False
      then show ?thesis using body lt paced_acquire by auto
    next
      case True
      then obtain w1 where w1: "wait_if_paused env (acquire env w) = Some w1"
        and rest: "loop env deadline (time_sleep (min (1 / 10) (max 0 (deadline - now w1))) w1) = Some w'"
        using body lt by (auto simp add: bind_eq_Some_conv)
      have a: "paced w w1"
        using wait_if_paused_paced [OF w1] paced_acquire paced_trans by blast
      have "10 * now w1 - of_nat (ticks w1) + 1 \<le> 10 * now w - of_nat (ticks w)"
        using wait_if_paused_paced [OF w1] by (simp add: ticks_acquire now_acquire)
      moreover have "0 \<le> min (1 / 10) (max 0 (deadline - now w1))"
        and "min (1 / 10) (max 0 (deadline - now w1)) \<le> 1 / 10"
        by (simp_all add: min_def max_def)
      ultimately have "paced w (time_sleep (min (1 / 10) (max 0 (deadline - now w1))) w1)"
        using a by (intro paced_time_sleep)
      then show ?thesis using IH [OF rest] paced_trans by blast
    qed
  qed
qed

lemma sleep_with_pause_paced:
  "sleep_with_pause env seconds w = Some w' \<Longrightarrow> paced w w'"
  unfolding sleep_with_pause_def by (rule sleep_loop_paced)

lemma serve_not_running: "\<not> is_running s \<Longrightarrow> serve c s = s"
  by (cases c)
     (simp_all add: serve_def stop_automation_def pause_automation_def resume_automation_def)

lemma serve_all_not_running: "\<not> is_running s \<Longrightarrow> serve_all cs s = s"
  by (induction cs) (simp_all add: serve_all_def serve_not_running)

lemma serve_all_Cons: "serve_all (c # cs) s = serve_all cs (serve c s)"
  by (simp add: serve_all_def)

lemma serve_all_stop: "Stop \<in> set cs \<Longrightarrow> \<not> is_running (serve_all cs s)"
proof (induction cs arbitrary: s)
  case Nil
  then show ?case by simp
next
  case (Cons c cs)
  show ?case
  proof (cases "is_running (serve c s)")
    case False
    then show ?thesis by (simp add: serve_all_Cons serve_all_not_running)
  next
    case True
    then have "c \<noteq> Stop"
      by (auto simp add: serve_def stop_automation_def split: if_splits)
    then show ?thesis using Cons by (simp add: serve_all_Cons)
  qed
qed

lemma st_acquire: "st (acquire env w) = serve_all (ctl env (ticks w)) (st w)"
  by (simp add: acquire_def)

lemma wait_if_paused_free:
  "\<not> (is_running (st (acquire env w)) \<and> is_paused (st (acquire env w))) \<Longrightarrow>
   wait_if_paused env w = Some (acquire env w)"
  by (subst wait_if_paused.simps) auto

lemma wait_if_paused_blocked:
  "is_running (st (acquire env w)) \<and> is_paused (st (acquire env w)) \<Longrightarrow>
   wait_if_paused env w = wait_if_paused env (wait_round env w)"
  by (subst wait_if_paused.simps) (auto simp add: wait_round_def)

lemma wait_round_fields:
  "ticks ((wait_round env ^^ k) w) = ticks w + k"
  "now ((wait_round env ^^ k) w) = now w + of_nat k / 10"
  "trace ((wait_round env ^^ k) w) =
     trace w @ replicate k (Slept (1 / 10))"
  by (induction k)
     (simp_all add: wait_round_def time_sleep_def emit_def acquire_def add_divide_distrib
        replicate_append_same)

lemma wait_if_paused_unroll:
  assumes "\<forall>j < k. is_running (st (acquire env ((wait_round env ^^ j) w))) \<and>
                  is_paused (st (acquire env ((wait_round env ^^ j) w)))"
    and "\<not> (is_running (st (acquire env ((wait_round env ^^ k) w))) \<and>
            is_paused (st (acquire env ((wait_round env ^^ k) w))))"
  shows "wait_if_paused env w =
           Some (acquire env ((wait_round env ^^ k) w))"
  using assms
proof (induction k arbitrary: w)
  case 0
  then show ?case by (simp add: wait_if_paused_free)
next
  case (Suc k)
  let ?r = "wait_round env"
  have b: "is_running (st (acquire env w)) \<and> is_paused (st (acquire env w))"
    using Suc.prems(1) [rule_format, of 0] by simp
  have a: "\<forall>j < k. is_running (st (acquire env ((?r ^^ j) (?r w)))) \<and>
                  is_paused (st (acquire env ((?r ^^ j) (?r w))))"
  proof (intro allI impI)
    fix j assume "j < k"
    then show "is_running (st (acquire env ((?r ^^ j) (?r w)))) \<and>
               is_paused (st (acquire env ((?r ^^ j) (?r w))))"
      using Suc.prems(1) [rule_format, of "Suc j"] by (simp add: funpow_swap1)
  qed
  have c: "\<not> (is_running (st (acquire env ((?r ^^ k) (?r w)))) \<and>
             is_paused (st (acquire env ((?r ^^ k) (?r w)))))"
    using Suc.prems(2) by (simp add: funpow_swap1)
  have "wait_if_paused env (?r w) = Some (acquire env ((?r ^^ k) (?r w)))"
    using Suc.IH [OF a c] .
  then show ?case using b by (simp add: wait_if_paused_blocked funpow_swap1)
qed

lemma wait_if_paused_stop:
  "Stop \<in> set (ctl env t) \<Longrightarrow> ticks w \<le> t \<Longrightarrow>
   \<exists>w'. wait_if_paused env w = Some w' \<and> ticks w' \<le> t + 1 \<and>
        (ticks w' = t + 1 \<longrightarrow> \<not> is_running (st w'))"
proof (induction "t - ticks w" arbitrary: w rule: less_induct)
  case less
  show ?case
  proof (cases "is_running (st (acquire env w)) \<and> is_paused (st (acquire env w))")
    case False
    have "ticks w = t \<Longrightarrow> \<not> is_running (st (acquire env w))"
      using less.prems(1) by (simp add: st_acquire serve_all_stop)
    then show ?thesis
      using False less.prems(2) by (auto simp add: wait_if_paused_free ticks_acquire)
  next
    case True
    let ?w1 = "wait_round env w"
    have "ticks w \<noteq> t"
      using True less.prems(1) by (auto simp add: st_acquire serve_all_stop)
    then have lt: "ticks w < t" using less.prems(2) by simp
    have t1: "ticks ?w1 = Suc (ticks w)"
      by (simp add: wait_round_def time_sleep_def emit_def ticks_acquire)
    have "\<exists>w'. wait_if_paused env ?w1 = Some w' \<and> ticks w' \<le> t + 1 \<and>
        (ticks w' = t + 1 \<longrightarrow> \<not> is_running (st w'))"
      using lt t1 less.prems(1) by (intro less.hyps) simp_all
    then show ?thesis using True by (simp add: wait_if_paused_blocked)
  qed
qed

lemma sleep_loop_stopped:
  "\<not> is_running (st w) \<Longrightarrow>
   sleep_loop env deadline w = Some (if now w < deadline then acquire env w else w)"
  by (subst sleep_loop.simps) (simp add: st_acquire serve_all_not_running)

lemma sleep_loop_stop:
  "Stop \<in> set (ctl env t) \<Longrightarrow> ticks w \<le> t \<Longrightarrow>
   \<exists>w'. sleep_loop env deadline w = Some w' \<and> ticks w' \<le> t + 2"
proof (induction "t - ticks w" arbitrary: w rule: less_induct)
  case less
  show ?case
  proof (cases "now w < deadline")
    case False
    then show ?thesis using less.prems(2) by (subst sleep_loop.simps) simp
  next
    case True
    note lt = True
    show ?thesis
    proof (cases "is_running (st (acquire env w))")
      case False
      then show ?thesis
        using lt less.prems(2) by (subst sleep_loop.simps) (simp add: ticks_acquire)
    next
      case True
      have "ticks w \<noteq> t"
        using True less.prems(1) by (auto simp add: st_acquire serve_all_stop)
      then have "ticks (acquire env w) \<le> t" using less.prems(2) by (simp add: ticks_acquire)
      then obtain w1 where w1: "wait_if_paused env (acquire env w) = Some w1"
        and b1: "ticks w1 \<le> t + 1" and s1: "ticks w1 = t + 1 \<longrightarrow> \<not> is_running (st w1)"
        using wait_if_paused_stop [OF less.prems(1)] by blast
      let ?w2 = "time_sleep (min (1 / 10) (max 0 (deadline - now w1))) w1"
      have unf: "sleep_loop env deadline w = sleep_loop env deadline ?w2"
        using lt True w1 by (subst sleep_loop.simps) simp
      have g: "ticks w < ticks w1"
        using wait_if_paused_paced [OF w1] by (simp add: paced_def ticks_acquire)
      have t2: "ticks ?w2 = ticks w1" "st ?w2 = st w1"
        by (simp_all add: time_sleep_def emit_def)
      show ?thesis
      proof (cases "ticks w1 = t + 1")
        case True
        then have "\<not> is_running (st ?w2)" using s1 t2 by simp
        then show ?thesis
          using unf True t2 by (simp add: sleep_loop_stopped ticks_acquire)
      next
        case False
        then have "ticks ?w2 \<le> t" using b1 t2 by simp
        moreover have "t - ticks ?w2 < t - ticks w" using g t2 calculation by simp
        ultimately have "\<exists>w'. sleep_loop env deadline ?w2 = Some w' \<and> ticks w' \<le> t + 2"
          using less.prems(1) less.hyps by blast
        then show ?thesis using unf by simp
      qed
    qed
  qed
qed

text \<open>
  Claim C4. \<open>_wait_if_paused\<close> returns at once, without sleeping, when at its first
  poll \<open>is_paused\<close> and \<open>is_running\<close> do not both hold; when they hold at the first
  \<open>k\<close> polls and not at the next, it returns at that poll after exactly \<open>k\<close> sleeps of
  0.1 s; a stop served before the poll number \<open>t\<close> makes it return at that poll at the
  latest (a pause cannot hold it back); whatever \<open>_wait_if_paused\<close> and
  \<open>sleep_with_pause\<close> do before they return is taking the lock and sleeping at most
  0.1 s at a time; \<open>sleep_with_pause\<close> returns without sleeping when it finds
  \<open>is_running\<close> false, and after a stop it returns within two more lock acquisitions.
\<close>

theorem pause_helpers_cooperate:
  "(\<not> (is_running (st (acquire env w)) \<and> is_paused (st (acquire env w))) \<longrightarrow>
      wait_if_paused env w = Some (acquire env w)) \<and>
   ((\<forall>j < k. is_running (st (acquire env ((wait_round env ^^ j) w))) \<and>
              is_paused (st (acquire env ((wait_round env ^^ j) w)))) \<and>
    \<not> (is_running (st (acquire env ((wait_round env ^^ k) w))) \<and>
       is_paused (st (acquire env ((wait_round env ^^ k) w)))) \<longrightarrow>
      (\<exists>w'. wait_if_paused env w = Some w' \<and>
            w' = acquire env ((wait_round env ^^ k) w) \<and>
            now w' = now w + of_nat k / 10 \<and>
            trace w' = trace w @ replicate k (Slept (1 / 10)))) \<and>
   (Stop \<in> set (ctl env t) \<and> ticks w \<le> t \<longrightarrow>
      (\<exists>w'. wait_if_paused env w = Some w' \<and> ticks w' \<le> t + 1 \<and>
            10 * (now w' - now w) \<le> of_nat (t - ticks w))) \<and>
   (\<forall>w'. wait_if_paused env w = Some w' \<or> sleep_with_pause env seconds w = Some w' \<longrightarrow>
      paced w w') \<and>
   (0 < seconds \<and> \<not> is_running (st (acquire env w)) \<longrightarrow>
      sleep_with_pause env seconds w = Some (acquire env w)) \<and>
   (Stop \<in> set (ctl env t) \<and> ticks w \<le> t \<longrightarrow>
      (\<exists>w'. sleep_with_pause env seconds w = Some w' \<and> ticks w' \<le> t + 2 \<and>
            10 * (now w' - now w) \<le> of_nat (t + 2 - ticks w)))"
proof -
  have a: "wait_if_paused env w = Some (acquire env w)"
    if "\<not> (is_running (st (acquire env w)) \<and> is_paused (st (acquire env w)))"
    using that by (rule wait_if_paused_free)
  have b: "\<exists>w'. wait_if_paused env w = Some w' \<and>
            w' = acquire env ((wait_round env ^^ k) w) \<and>
            now w' = now w + of_nat k / 10 \<and>
            trace w' = trace w @ replicate k (Slept (1 / 10))"
    if "\<forall>j < k. is_running (st (acquire env ((wait_round env ^^ j) w))) \<and>
              is_paused (st (acquire env ((wait_round env ^^ j) w)))"
      and "\<not> (is_running (st (acquire env ((wait_round env ^^ k) w))) \<and>
             is_paused (st (acquire env ((wait_round env ^^ k) w))))"
    using wait_if_paused_unroll [OF that]
    by (simp add: wait_round_fields now_acquire) (simp add: acquire_def wait_round_fields)
  have c: "\<exists>w'. wait_if_paused env w = Some w' \<and> ticks w' \<le> t + 1 \<and>
            10 * (now w' - now w) \<le> of_nat (t - ticks w)"
    if sp: "Stop \<in> set (ctl env t)" and le: "ticks w \<le> t"
  proof -
    obtain w' where w': "wait_if_paused env w = Some w'" and t': "ticks w' \<le> t + 1"
      using wait_if_paused_stop [OF sp le] by blast
    have "10 * now w' - of_nat (ticks w') + 1 \<le> 10 * now w - of_nat (ticks w)"
      using wait_if_paused_paced [OF w'] by simp
    moreover have "(of_nat (ticks w') :: rat) \<le> of_nat t + 1"
      using t' by (metis of_nat_le_iff of_nat_add of_nat_1)
    moreover have "(of_nat (t - ticks w) :: rat) = of_nat t - of_nat (ticks w)"
      using le by (simp add: of_nat_diff)
    ultimately have "10 * (now w' - now w) \<le> of_nat (t - ticks w)" by simp
    then show ?thesis using w' t' by blast
  qed
  have d: "paced w w'"
    if "wait_if_paused env w = Some w' \<or> sleep_with_pause env seconds w = Some w'" for w'
    using that wait_if_paused_paced sleep_with_pause_paced by blast
  have e: "sleep_with_pause env seconds w = Some (acquire env w)"
    if "0 < seconds" and "\<not> is_running (st (acquire env w))"
    using that unfolding sleep_with_pause_def by (subst sleep_loop.simps) simp
  have f: "\<exists>w'. sleep_with_pause env seconds w = Some w' \<and> ticks w' \<le> t + 2 \<and>
            10 * (now w' - now w) \<le> of_nat (t + 2 - ticks w)"
    if sp: "Stop \<in> set (ctl env t)" and le: "ticks w \<le> t"
  proof -
    obtain w' where w': "sleep_with_pause env seconds w = Some w'" and t': "ticks w' \<le> t + 2"
      using sleep_loop_stop [OF sp le] unfolding sleep_with_pause_def by blast
    have "10 * now w' - of_nat (ticks w') \<le> 10 * now w - of_nat (ticks w)"
      using sleep_with_pause_paced [OF w'] by (simp add: paced_def)
    moreover have "(of_nat (ticks w') :: rat) \<le> of_nat (t + 2)"
      using t' by (simp only: of_nat_le_iff)
    moreover have "(of_nat (t + 2 - ticks w) :: rat) = of_nat (t + 2) - of_nat (ticks w)"
      using le by (simp add: of_nat_diff)
    ultimately have "10 * (now w' - now w) \<le> of_nat (t + 2 - ticks w)" by simp
    then show ?thesis using w' t' by blast
  qed
  show ?thesis using a b c d e f by blast
qed

theorem pause_helpers_cooperate_witness:
  "Stop \<in> set (ctl pause_stop_env 3) \<and> ticks world_fixture \<le> 3 \<and>
   (\<exists>w'. wait_if_paused pause_stop_env world_fixture = Some w' \<and>
         now w' = 3 / 10 \<and>
         trace w' = [Slept (1 / 10), Slept (1 / 10), Slept (1 / 10)] \<and>
         \<not> is_running (st w')) \<and>
   (\<exists>w'. sleep_with_pause pause_stop_env 3 world_fixture = Some w' \<and> ticks w' \<le> 5)"
proof -
  note T = pause_helpers_cooperate [of pause_stop_env world_fixture 3 3 3]
  have sp: "Stop \<in> set (ctl pause_stop_env 3)" and le: "ticks world_fixture \<le> 3"
    by (simp_all add: pause_stop_env_def quiet_env_def world_fixture_def)
  have r0: "st (acquire pause_stop_env world_fixture) =
      state_fixture\<lparr>is_paused := True, status := ''Paused''\<rparr>"
    by (simp add: acquire_def pause_stop_env_def quiet_env_def world_fixture_def serve_all_def
        serve_def pause_automation_def state_fixture_def initial_state_def)
  have r1: "wait_round pause_stop_env world_fixture =
      world_fixture\<lparr>st := state_fixture\<lparr>is_paused := True, status := ''Paused''\<rparr>,
        ticks := 1, now := 1 / 10, trace := [Slept (1 / 10)]\<rparr>"
    by (simp add: wait_round_def time_sleep_def emit_def acquire_def pause_stop_env_def
        quiet_env_def world_fixture_def serve_all_def serve_def pause_automation_def
        state_fixture_def initial_state_def)
  have r2: "(wait_round pause_stop_env ^^ 2) world_fixture =
      world_fixture\<lparr>st := state_fixture\<lparr>is_paused := True, status := ''Paused''\<rparr>,
        ticks := 2, now := 2 / 10, trace := [Slept (1 / 10), Slept (1 / 10)]\<rparr>"
    unfolding numeral_2_eq_2 funpow.simps o_def id_def r1
    by (simp add: wait_round_def time_sleep_def emit_def acquire_def pause_stop_env_def
        quiet_env_def world_fixture_def serve_all_def)
  have r3: "(wait_round pause_stop_env ^^ 3) world_fixture =
      world_fixture\<lparr>st := state_fixture\<lparr>is_paused := True, status := ''Paused''\<rparr>,
        ticks := 3, now := 3 / 10, trace := [Slept (1 / 10), Slept (1 / 10), Slept (1 / 10)]\<rparr>"
    using r2 unfolding numeral_3_eq_3 numeral_2_eq_2 funpow.simps o_def id_def
    by (simp add: wait_round_def time_sleep_def emit_def acquire_def pause_stop_env_def
        quiet_env_def world_fixture_def serve_all_def)
  have blocked: "\<forall>j < 3. is_running (st (acquire pause_stop_env ((wait_round pause_stop_env ^^ j) world_fixture))) \<and>
      is_paused (st (acquire pause_stop_env ((wait_round pause_stop_env ^^ j) world_fixture)))"
  proof (intro allI impI)
    fix j :: nat assume "j < 3"
    then consider "j = 0" | "j = 1" | "j = 2" by linarith
    then show "is_running (st (acquire pause_stop_env ((wait_round pause_stop_env ^^ j) world_fixture))) \<and>
      is_paused (st (acquire pause_stop_env ((wait_round pause_stop_env ^^ j) world_fixture)))"
    proof cases
      case 1
      then show ?thesis using r0 by (simp add: state_fixture_def initial_state_def)
    next
      case 2
      then show ?thesis using r1
        by (simp add: acquire_def pause_stop_env_def quiet_env_def serve_all_def
            state_fixture_def initial_state_def)
    next
      case 3
      then show ?thesis using r2
        by (simp add: acquire_def pause_stop_env_def quiet_env_def serve_all_def
            state_fixture_def initial_state_def)
    qed
  qed
  have free: "\<not> (is_running (st (acquire pause_stop_env ((wait_round pause_stop_env ^^ 3) world_fixture))) \<and>
      is_paused (st (acquire pause_stop_env ((wait_round pause_stop_env ^^ 3) world_fixture))))"
    using r3
    by (simp add: acquire_def pause_stop_env_def quiet_env_def serve_all_def serve_def
        stop_automation_def state_fixture_def initial_state_def)
  obtain w' where w': "wait_if_paused pause_stop_env world_fixture = Some w'"
    and eq: "w' = acquire pause_stop_env ((wait_round pause_stop_env ^^ 3) world_fixture)"
    and n: "now w' = now world_fixture + of_nat 3 / 10"
    and tr: "trace w' = trace world_fixture @ replicate 3 (Slept (1 / 10))"
    using T [THEN conjunct2, THEN conjunct1] blocked free by blast
  have "\<not> is_running (st w')"
    using eq r3
    by (simp add: acquire_def pause_stop_env_def quiet_env_def serve_all_def serve_def
        stop_automation_def state_fixture_def initial_state_def)
  then have first: "\<exists>w'. wait_if_paused pause_stop_env world_fixture = Some w' \<and>
         now w' = 3 / 10 \<and>
         trace w' = [Slept (1 / 10), Slept (1 / 10), Slept (1 / 10)] \<and>
         \<not> is_running (st w')"
    using w' n tr by (simp add: world_fixture_def numeral_3_eq_3)
  have second: "\<exists>w'. sleep_with_pause pause_stop_env 3 world_fixture = Some w' \<and> ticks w' \<le> 5"
    using T [THEN conjunct2, THEN conjunct2, THEN conjunct2, THEN conjunct2, THEN conjunct2] sp le
    by auto
  show ?thesis using sp le first second by blast
qed

section \<open>How a run evolves\<close>

lemma entries_grow_refl: "entries_grow m m"
  by (simp add: entries_grow_def)

lemma entries_grow_trans:
  assumes "entries_grow m m'" and "entries_grow m' m''"
  shows "entries_grow m m''"
  unfolding entries_grow_def
proof (intro conjI allI impI)
  show "dom m \<subseteq> dom m''" using assms unfolding entries_grow_def by blast
next
  fix p e assume "m p = Some e" and "pdone e \<le> ptotal e"
  then obtain e' where e': "m' p = Some e'" "ptotal e' = ptotal e" "pdone e \<le> pdone e'"
      "pdone e' \<le> ptotal e'"
    using assms(1) unfolding entries_grow_def by blast
  then obtain e'' where "m'' p = Some e''" "ptotal e'' = ptotal e'" "pdone e' \<le> pdone e''"
      "pdone e'' \<le> ptotal e''"
    using assms(2) unfolding entries_grow_def by blast
  then show "\<exists>e'. m'' p = Some e' \<and> ptotal e' = ptotal e \<and> pdone e \<le> pdone e' \<and>
      pdone e' \<le> ptotal e'"
    using e' by auto
qed

lemma advances_refl: "advances s s"
  by (simp add: advances_def entries_grow_refl)

lemma advances_trans: "advances s s' \<Longrightarrow> advances s' s'' \<Longrightarrow> advances s s''"
  unfolding advances_def using entries_grow_trans by metis

lemma ctl_only_advances: "ctl_only s s' \<Longrightarrow> advances s s'"
proof -
  assume c: "ctl_only s s'"
  then have eq: "s' = s\<lparr>is_running := is_running s', is_paused := is_paused s', status := status s'\<rparr>"
    and r: "is_running s' \<longrightarrow> is_running s"
    by (simp_all add: ctl_only_def)
  have f: "total s' = total s" "mobile_enabled s' = mobile_enabled s"
    "profile_eligibility s' = profile_eligibility s"
    "profile_progress s' = profile_progress s" "mobile_progress s' = mobile_progress s"
    by (subst eq, simp)+
  show ?thesis
    unfolding advances_def capped_def f using r by (simp add: entries_grow_refl)
qed

lemma evolves_refl: "evolves w w"
  by (simp add: evolves_def advances_refl)

lemma evolves_trans:
  assumes "evolves w w'" and "evolves w' w''"
  shows "evolves w w''"
proof -
  obtain es where es: "trace w' = trace w @ es" using assms(1) unfolding evolves_def by blast
  obtain fs where fs: "trace w'' = trace w' @ fs" using assms(2) unfolding evolves_def by blast
  have tr: "\<exists>xs. trace w'' = trace w @ xs" using es fs by simp
  have a: "advances (st w) (st w'')"
    using assms advances_trans unfolding evolves_def by blast
  have t: "ticks w \<le> ticks w''" "completed_l w \<le> completed_l w''"
    using assms unfolding evolves_def by linarith+
  show ?thesis unfolding evolves_def using a t tr by blast
qed

lemma paced_evolves: "paced w w' \<Longrightarrow> evolves w w'"
  unfolding paced_def evolves_def using ctl_only_advances by auto

lemma evolves_acquire: "evolves w (acquire env w)"
  using paced_acquire by (rule paced_evolves)

lemma evolves_with_lock:
  assumes "\<And>s. advances s (f s)"
  shows "evolves w (with_lock env f w)"
proof -
  have "advances (st w) (st (acquire env w))"
    using evolves_acquire by (simp add: evolves_def)
  then have "advances (st w) (f (st (acquire env w)))"
    using assms advances_trans by blast
  then show ?thesis
    by (simp add: evolves_def with_lock_def acquire_def)
qed

lemma evolves_local:
  assumes "st w' = st w" and "ticks w' = ticks w" and "completed_l w \<le> completed_l w'"
    and "\<exists>es. trace w' = trace w @ es"
  shows "evolves w w'"
  using assms by (simp add: evolves_def advances_refl)

lemma evolves_emit: "evolves w (emit e w)"
  by (rule evolves_local) (simp_all add: emit_def)

lemma evolves_track: "evolves w (track proc label w)"
  by (rule evolves_local) (simp_all add: track_def split: option.splits)

lemma sleep_with_pause_evolves:
  "sleep_with_pause env seconds w = Some w' \<Longrightarrow> evolves w w'"
  using sleep_with_pause_paced paced_evolves by blast

lemma wait_if_paused_evolves:
  "wait_if_paused env w = Some w' \<Longrightarrow> evolves w w'"
  using wait_if_paused_paced paced_evolves by blast

lemma pool_kept_refl: "pool_kept w w"
  by (simp add: pool_kept_def)

lemma pool_kept_trans: "pool_kept w w' \<Longrightarrow> pool_kept w' w'' \<Longrightarrow> pool_kept w w''"
  by (simp add: pool_kept_def)

lemma paced_pool_kept: "paced w w' \<Longrightarrow> pool_kept w w'"
  by (simp add: paced_def pool_kept_def)

section \<open>Steady runs: the worker's steps return\<close>

lemma serve_all_no_pause:
  "Pause \<notin> set cs \<Longrightarrow> \<not> is_paused s \<Longrightarrow> \<not> is_paused (serve_all cs s)"
proof (induction cs arbitrary: s)
  case Nil
  then show ?case by (simp add: serve_all_def)
next
  case (Cons c cs)
  have "\<not> is_paused (serve c s)"
    using Cons.prems
    by (cases c)
       (simp_all add: serve_def stop_automation_def resume_automation_def)
  then show ?case using Cons by (simp add: serve_all_Cons)
qed

lemma serve_all_no_stop:
  "Stop \<notin> set cs \<Longrightarrow> is_running s \<Longrightarrow> is_running (serve_all cs s)"
proof (induction cs arbitrary: s)
  case Nil
  then show ?case by (simp add: serve_all_def)
next
  case (Cons c cs)
  have "is_running (serve c s)"
    using Cons.prems
    by (cases c)
       (simp_all add: serve_def pause_automation_def resume_automation_def)
  then show ?case using Cons by (simp add: serve_all_Cons)
qed

lemma steady_run_acquire:
  assumes "steady_run b env w"
  shows "steady_run b env (acquire env w)"
    and "\<not> (is_running (st (acquire env w)) \<and> is_paused (st (acquire env w)))"
    and "b \<Longrightarrow> is_running (st (acquire env w))"
proof -
  have free: "\<not> is_running (st (acquire env w)) \<or>
      (\<not> is_paused (st (acquire env w)) \<and> (\<forall>n \<ge> ticks (acquire env w). Pause \<notin> set (ctl env n)))"
  proof (cases "is_running (st w)")
    case False
    then show ?thesis by (simp add: st_acquire serve_all_not_running)
  next
    case True
    then have np: "\<not> is_paused (st w)" and fut: "\<forall>n \<ge> ticks w. Pause \<notin> set (ctl env n)"
      using assms by (simp_all add: steady_run_def)
    have "\<not> is_paused (st (acquire env w))"
      using np fut by (simp add: st_acquire serve_all_no_pause)
    then show ?thesis using fut by (simp add: ticks_acquire)
  qed
  have run: "is_running (st (acquire env w)) \<and> (\<forall>n \<ge> ticks (acquire env w). Stop \<notin> set (ctl env n))"
    if b
    using that assms by (simp add: steady_run_def st_acquire serve_all_no_stop ticks_acquire)
  show "steady_run b env (acquire env w)"
    unfolding steady_run_def using free run by blast
  show "\<not> (is_running (st (acquire env w)) \<and> is_paused (st (acquire env w)))"
    using free by blast
  show "b \<Longrightarrow> is_running (st (acquire env w))" using run by blast
qed

lemma steady_run_same:
  "st w' = st w \<Longrightarrow> ticks w' = ticks w \<Longrightarrow> steady_run b env w' = steady_run b env w"
  by (simp add: steady_run_def)

lemma steady_run_with_lock:
  assumes "steady_run b env w"
    and "\<And>s. is_running (f s) = is_running s" and "\<And>s. is_paused (f s) = is_paused s"
  shows "steady_run b env (with_lock env f w)"
  using steady_run_acquire(1) [OF assms(1)] assms(2,3)
  by (simp add: steady_run_def with_lock_def)

lemma steady_run_emit [simp]: "steady_run b env (emit e w) = steady_run b env w"
  by (rule steady_run_same) (simp_all add: emit_def)

lemma steady_run_track [simp]: "steady_run b env (track proc label w) = steady_run b env w"
  by (rule steady_run_same) (simp_all add: track_def split: option.splits)

lemma steady_run_time_sleep [simp]: "steady_run b env (time_sleep d w) = steady_run b env w"
  by (rule steady_run_same) (simp_all add: time_sleep_def emit_def)

lemma wait_if_paused_run:
  "steady_run b env w \<Longrightarrow> wait_if_paused env w = Some (acquire env w)"
  using steady_run_acquire(2) by (rule wait_if_paused_free)

lemma sleep_loop_run:
  "steady_run b env w \<Longrightarrow> \<exists>w'. sleep_loop env deadline w = Some w' \<and> steady_run b env w'"
proof (induction "nat \<lceil>(deadline - now w) * 10\<rceil>" arbitrary: w rule: less_induct)
  case less
  show ?case
  proof (cases "now w < deadline")
    case False
    then show ?thesis using less.prems by (subst sleep_loop.simps) simp
  next
    case True
    note lt = True
    let ?a = "acquire env w"
    have ua: "steady_run b env ?a" using less.prems by (rule steady_run_acquire(1))
    show ?thesis
    proof (cases "is_running (st ?a)")
      case False
      then show ?thesis using lt ua by (subst sleep_loop.simps) simp
    next
      case True
      let ?w1 = "acquire env ?a"
      let ?d = "min (1 / 10) (max 0 (deadline - now ?w1))"
      let ?w2 = "time_sleep ?d ?w1"
      have w1: "wait_if_paused env ?a = Some ?w1"
        using ua by (rule wait_if_paused_run)
      have unf: "sleep_loop env deadline w = sleep_loop env deadline ?w2"
        using lt True w1 by (subst sleep_loop.simps) simp
      have u2: "steady_run b env ?w2"
        using steady_run_acquire(1) [OF ua] by simp
      have n2: "now ?w2 = now w + min (1 / 10) (deadline - now w)"
        using lt by (simp add: time_sleep_def emit_def now_acquire max_def)
      define x where "x = (deadline - now w) * 10"
      define y where "y = (deadline - now ?w2) * 10"
      have xpos: "0 < x" using lt by (simp add: x_def)
      have "\<lceil>y\<rceil> < \<lceil>x\<rceil>"
      proof (cases "1 / 10 \<le> deadline - now w")
        case True
        then have "y = x - 1"
          unfolding x_def y_def n2 by (simp add: min_def algebra_simps)
        then show ?thesis by simp
      next
        case False
        then have "y = 0"
          unfolding y_def n2 by (simp add: min_def)
        moreover have "0 < \<lceil>x\<rceil>" using xpos by simp
        ultimately show ?thesis by simp
      qed
      moreover have "0 < \<lceil>x\<rceil>" using xpos by simp
      ultimately have "nat \<lceil>y\<rceil> < nat \<lceil>x\<rceil>"
        by linarith
      then have "nat \<lceil>(deadline - now ?w2) * 10\<rceil> < nat \<lceil>(deadline - now w) * 10\<rceil>"
        by (simp only: x_def y_def)
      then have "\<exists>w'. sleep_loop env deadline ?w2 = Some w' \<and> steady_run b env w'"
        using u2 by (rule less.hyps)
      then show ?thesis using unf by simp
    qed
  qed
qed

lemma sleep_with_pause_run:
  "steady_run b env w \<Longrightarrow> \<exists>w'. sleep_with_pause env seconds w = Some w' \<and> steady_run b env w'"
  unfolding sleep_with_pause_def by (rule sleep_loop_run)

section \<open>Composing steps\<close>

lemma yields_Some: "(\<And>w. R w (f w)) \<Longrightarrow> yields R (\<lambda>w. Some (f w))"
  by (simp add: yields_def)

lemma yields_bind:
  assumes "transp R" and "yields R F" and "yields R G"
  shows "yields R (\<lambda>w. F w \<bind> G)"
  unfolding yields_def
proof (intro allI impI)
  fix w w' assume "F w \<bind> G = Some w'"
  then obtain w1 where "F w = Some w1" and "G w1 = Some w'"
    by (auto simp add: bind_eq_Some_conv)
  then have "R w w1" and "R w1 w'" using assms(2,3) by (simp_all add: yields_def)
  then show "R w w'" using assms(1) by (meson transpD)
qed

lemma yields_if:
  "yields R F \<Longrightarrow> yields R G \<Longrightarrow> yields R (\<lambda>w. if c w then F w else G w)"
  by (simp add: yields_def)

lemma yields_after:
  assumes "transp R" and "\<And>w. R w (g w)" and "yields R F"
  shows "yields R (\<lambda>w. F (g w))"
  unfolding yields_def using assms by (metis yields_def transpD)

lemma runs_Some:
  "(\<And>w. steady_run b env w \<Longrightarrow> steady_run b env (f w)) \<Longrightarrow> runs b env (\<lambda>w. Some (f w))"
  by (simp add: runs_def)

lemma runs_bind:
  assumes "runs b env F" and "runs b env G"
  shows "runs b env (\<lambda>w. F w \<bind> G)"
  unfolding runs_def
proof (intro allI impI)
  fix w assume "steady_run b env w"
  then obtain w1 where "F w = Some w1" and "steady_run b env w1"
    using assms(1) unfolding runs_def by blast
  then show "\<exists>w'. F w \<bind> G = Some w' \<and> steady_run b env w'"
    using assms(2) unfolding runs_def by simp
qed

lemma runs_if:
  "runs b env F \<Longrightarrow> runs b env G \<Longrightarrow> runs b env (\<lambda>w. if c w then F w else G w)"
  by (simp add: runs_def)

lemma runs_after:
  assumes "\<And>w. steady_run b env w \<Longrightarrow> steady_run b env (g w)" and "runs b env F"
  shows "runs b env (\<lambda>w. F (g w))"
  using assms by (simp add: runs_def)

lemma transp_evolves: "transp evolves"
  using evolves_trans by (auto intro: transpI)

lemma transp_pool_kept: "transp pool_kept"
  using pool_kept_trans by (auto intro: transpI)

lemma sleep_yields_evolves: "yields evolves (sleep_with_pause env seconds)"
  by (simp add: yields_def sleep_with_pause_evolves)

lemma sleep_yields_pool: "yields pool_kept (sleep_with_pause env seconds)"
  using sleep_with_pause_paced paced_pool_kept by (auto simp add: yields_def)

lemma sleep_runs: "runs b env (sleep_with_pause env seconds)"
  by (simp add: runs_def sleep_with_pause_run)

lemma pool_kept_emit: "pool_kept w (emit e w)"
  by (simp add: pool_kept_def emit_def)

lemma gui_search_evolves: "yields evolves (gui_search env q)"
proof -
  have "gui_search env q = (\<lambda>w.
     if gui_raises env (ticks w) then Some w
      else sleep_with_pause env (1 / 2) (emit (Hotkey ''ctrl+t'') w) \<bind> (\<lambda>w1.
        if gui_raises env (ticks w1) then Some w1
        else sleep_with_pause env (3 / 10) (emit (Hotkey ''ctrl+l'') w1) \<bind> (\<lambda>w2.
          if gui_raises env (ticks w2) then Some w2
          else sleep_with_pause env (1 / 5) (emit (Typewrite q) w2) \<bind> (\<lambda>w3.
            if gui_raises env (ticks w3) then Some w3
            else Some (emit PressEnter w3)))))"
    by (rule ext) (simp add: gui_search_def)
  then show ?thesis
    by (simp only:)
       (intro yields_if yields_bind yields_Some transp_evolves
          yields_after [where F = "sleep_with_pause env d" and g = "emit e" for d e]
          sleep_yields_evolves evolves_refl evolves_emit)
qed

section \<open>Queries and passes\<close>

lemma searching_refl: "searching w w"
  by (simp add: searching_def evolves_refl pool_kept_refl)

lemma searching_trans: "searching w w' \<Longrightarrow> searching w' w'' \<Longrightarrow> searching w w''"
  unfolding searching_def using evolves_trans pool_kept_trans by blast

lemma transp_searching: "transp searching"
  using searching_trans by (auto intro: transpI)

lemma searching_emit: "searching w (emit e w)"
  by (simp add: searching_def evolves_emit pool_kept_emit)

lemma searching_if_emit: "searching w (if c then emit e w else w)"
  by (simp add: searching_emit searching_refl)

lemma searching_sleep: "sleep_with_pause env seconds w = Some w' \<Longrightarrow> searching w w'"
  using sleep_with_pause_paced paced_pool_kept paced_evolves by (auto simp add: searching_def)

lemma searching_wait: "wait_if_paused env w = Some w' \<Longrightarrow> searching w w'"
  using wait_if_paused_paced paced_pool_kept paced_evolves by (auto simp add: searching_def)

lemma searching_acquire: "searching w (acquire env w)"
  using paced_acquire paced_pool_kept paced_evolves by (auto simp add: searching_def)

lemma searching_with_lock:
  assumes "\<And>s. advances s (f s)"
  shows "searching w (with_lock env f w)"
  using evolves_with_lock [of f, OF assms]
  by (simp add: searching_def pool_kept_def with_lock_def acquire_def)

lemma yields_sleep: "yields searching (sleep_with_pause env seconds)"
  by (simp add: yields_def searching_sleep)

lemma gui_search_yields: "yields searching (gui_search env q)"
proof -
  have "gui_search env q = (\<lambda>w.
     if gui_raises env (ticks w) then Some w
      else sleep_with_pause env (1 / 2) (emit (Hotkey ''ctrl+t'') w) \<bind> (\<lambda>w1.
        if gui_raises env (ticks w1) then Some w1
        else sleep_with_pause env (3 / 10) (emit (Hotkey ''ctrl+l'') w1) \<bind> (\<lambda>w2.
          if gui_raises env (ticks w2) then Some w2
          else sleep_with_pause env (1 / 5) (emit (Typewrite q) w2) \<bind> (\<lambda>w3.
            if gui_raises env (ticks w3) then Some w3
            else Some (emit PressEnter w3)))))"
    by (rule ext) (simp add: gui_search_def)
  then show ?thesis
    by (simp only:)
       (intro yields_if yields_bind yields_Some transp_searching
          yields_after [where F = "sleep_with_pause env d" and g = "emit e" for d e]
          yields_sleep searching_refl searching_emit)
qed

lemma gui_search_searching: "gui_search env q w = Some w' \<Longrightarrow> searching w w'"
  using gui_search_yields by (simp add: yields_def)

lemma gui_search_runs: "runs b env (gui_search env q)"
proof -
  have "gui_search env q = (\<lambda>w.
     if gui_raises env (ticks w) then Some w
      else sleep_with_pause env (1 / 2) (emit (Hotkey ''ctrl+t'') w) \<bind> (\<lambda>w1.
        if gui_raises env (ticks w1) then Some w1
        else sleep_with_pause env (3 / 10) (emit (Hotkey ''ctrl+l'') w1) \<bind> (\<lambda>w2.
          if gui_raises env (ticks w2) then Some w2
          else sleep_with_pause env (1 / 5) (emit (Typewrite q) w2) \<bind> (\<lambda>w3.
            if gui_raises env (ticks w3) then Some w3
            else Some (emit PressEnter w3)))))"
    by (rule ext) (simp add: gui_search_def)
  then show ?thesis
    by (simp only:)
       (intro runs_if runs_bind runs_Some
          runs_after [where F = "sleep_with_pause env d" and g = "emit e" for d e]
          sleep_runs, simp_all)
qed

lemma gui_search_run:
  "steady_run b env w \<Longrightarrow> \<exists>w'. gui_search env q w = Some w' \<and> steady_run b env w'"
  using gui_search_runs by (simp add: runs_def)

lemma terminate_process_evolves:
  "terminate_process env h w = Some w' \<Longrightarrow> evolves w w'"
  unfolding terminate_process_def
  by (auto simp add: bind_eq_Some_conv evolves_refl split: if_splits
      dest!: sleep_with_pause_evolves)
     (meson evolves_trans evolves_emit)+

lemma terminate_process_run:
  assumes "steady_run b env w"
  shows "\<exists>w'. terminate_process env h w = Some w' \<and> steady_run b env w'"
proof (cases "proc_raises env (ticks w)")
  case True
  then show ?thesis using assms by (simp add: terminate_process_def)
next
  case False
  obtain w1 where "sleep_with_pause env (1 / 2) (emit (Terminate h) w) = Some w1"
    and "steady_run b env w1"
    using sleep_with_pause_run [of b env "emit (Terminate h) w"] assms by auto
  then show ?thesis using False by (simp add: terminate_process_def)
qed

lemma advances_desktop_update: "advances s (desktop_update c name s)"
proof -
  have g: "entries_grow (profile_progress s) (profile_progress (desktop_update c name s))"
    unfolding entries_grow_def
    by (cases "profile_progress s name") (auto simp add: desktop_update_def bump_done_def)
  have k: "entries_capped (profile_progress (desktop_update c name s))"
    if "entries_capped (profile_progress s)"
    using that unfolding entries_capped_def
    by (cases "profile_progress s name")
       (auto simp add: desktop_update_def bump_done_def split: if_splits)
  have f: "total (desktop_update c name s) = total s"
    "mobile_enabled (desktop_update c name s) = mobile_enabled s"
    "profile_eligibility (desktop_update c name s) = profile_eligibility s"
    "is_running (desktop_update c name s) = is_running s"
    "mobile_progress (desktop_update c name s) = mobile_progress s"
    by (simp_all add: desktop_update_def)
  show ?thesis
    unfolding advances_def capped_def f using g k by (simp add: entries_grow_refl)
qed

lemma advances_mobile_update: "advances s (mobile_update mc name s)"
proof -
  have g: "entries_grow (mobile_progress s) (mobile_progress (mobile_update mc name s))"
    unfolding entries_grow_def
    by (auto simp add: mobile_update_def bump_done_def get_default_def)
  have k: "entries_capped (mobile_progress (mobile_update mc name s))"
    if "entries_capped (mobile_progress s)"
    using that unfolding entries_capped_def
    by (auto simp add: mobile_update_def bump_done_def get_default_def split: if_splits)
  have f: "total (mobile_update mc name s) = total s"
    "mobile_enabled (mobile_update mc name s) = mobile_enabled s"
    "profile_eligibility (mobile_update mc name s) = profile_eligibility s"
    "is_running (mobile_update mc name s) = is_running s"
    "profile_progress (mobile_update mc name s) = profile_progress s"
    by (simp_all add: mobile_update_def)
  show ?thesis
    unfolding advances_def capped_def f using g k by (simp add: entries_grow_refl)
qed

lemma advances_labels:
  "advances s (s\<lparr>current_search := a, status := b\<rparr>)"
  "advances s (s\<lparr>current_profile := a, status := b\<rparr>)"
  "advances s (s\<lparr>status := b\<rparr>)"
  "advances s (mobile_searching mq s)"
  by (simp_all add: advances_def capped_def entries_grow_refl mobile_searching_def)

lemma advances_terminal: "advances s (terminal_state s)"
  by (simp add: advances_def capped_def entries_grow_refl terminal_state_def)

lemma searching_try_bump: "searching w (try_bump env name is_pc w)"
  by (simp add: searching_def evolves_def pool_kept_def advances_refl try_bump_def)

lemma searching_count: "0 \<le> k \<Longrightarrow> searching w (w\<lparr>completed_l := completed_l w + k\<rparr>)"
  by (simp add: searching_def evolves_def pool_kept_def advances_refl)

lemma desktop_query_searching:
  assumes "desktop_query env delay name q w = Some w'"
  shows "searching w w'"
proof -
  let ?w0 = "with_lock env (\<lambda>s. s\<lparr>current_search := q, status := ''Searching for: '' @ q\<rparr>) w"
  obtain w1 where w1: "gui_search env q ?w0 = Some w1"
    and rest: "sleep_with_pause env
        (max (1 / 10) (delay + uniform env
           (ticks (try_bump env name True (with_lock env (desktop_update (completed_l w1 + 1) name)
              (w1\<lparr>completed_l := completed_l w1 + 1\<rparr>)))) (3 / 20) (3 / 5)))
        (try_bump env name True (with_lock env (desktop_update (completed_l w1 + 1) name)
           (w1\<lparr>completed_l := completed_l w1 + 1\<rparr>))) = Some w'"
    using assms by (auto simp add: desktop_query_def Let_def bind_eq_Some_conv)
  let ?w2 = "w1\<lparr>completed_l := completed_l w1 + 1\<rparr>"
  let ?w3 = "with_lock env (desktop_update (completed_l w1 + 1) name) ?w2"
  have a1: "searching w ?w0" by (rule searching_with_lock) (rule advances_labels)
  have a2: "searching ?w0 w1" using w1 by (rule gui_search_searching)
  have a3: "searching w1 ?w2" using searching_count [of 1 w1] by simp
  have a4: "searching ?w2 ?w3"
    by (rule searching_with_lock) (rule advances_desktop_update)
  have a5: "searching ?w3 (try_bump env name True ?w3)" by (rule searching_try_bump)
  have a6: "searching (try_bump env name True ?w3) w'" using rest by (rule searching_sleep)
  show ?thesis
    by (rule searching_trans [OF searching_trans [OF searching_trans [OF searching_trans
          [OF searching_trans [OF a1 a2] a3] a4] a5] a6])
qed

declare searching_trans [trans] evolves_trans [trans]

lemma wait_yields_searching: "yields searching (wait_if_paused env)"
  by (simp add: yields_def searching_wait)

lemma pass_yields:
  assumes nil: "\<And>w. P [] w = Some w"
    and cons: "\<And>q qs w. P (q # qs) w =
        wait_if_paused env w \<bind> (\<lambda>w1.
          if \<not> is_running (st (acquire env w1)) then Some (acquire env w1)
          else Q q (acquire env w1) \<bind> P qs)"
    and query: "\<And>q. yields searching (Q q)"
  shows "yields searching (P qs)"
proof (induction qs)
  case Nil
  show ?case by (simp add: yields_def nil searching_refl)
next
  case (Cons q qs)
  have "P (q # qs) = (\<lambda>w. wait_if_paused env w \<bind> (\<lambda>w1.
          if \<not> is_running (st (acquire env w1)) then Some (acquire env w1)
          else Q q (acquire env w1) \<bind> P qs))"
    by (rule ext) (rule cons)
  then show ?case
    by (simp only:)
       (intro yields_bind yields_if yields_Some transp_searching wait_yields_searching
          searching_acquire
          yields_after [where g = "acquire env" and F = "\<lambda>v. Q q v \<bind> P qs"]
          query Cons.IH)
qed

lemma pass_runs:
  assumes nil: "\<And>w. P [] w = Some w"
    and cons: "\<And>q qs w. P (q # qs) w =
        wait_if_paused env w \<bind> (\<lambda>w1.
          if \<not> is_running (st (acquire env w1)) then Some (acquire env w1)
          else Q q (acquire env w1) \<bind> P qs)"
    and query: "\<And>q. runs b env (Q q)"
  shows "runs b env (P qs)"
proof (induction qs)
  case Nil
  show ?case by (simp add: runs_def nil)
next
  case (Cons q qs)
  have w: "runs b env (wait_if_paused env)"
    using wait_if_paused_run steady_run_acquire(1) by (auto simp add: runs_def)
  have "P (q # qs) = (\<lambda>w. wait_if_paused env w \<bind> (\<lambda>w1.
          if \<not> is_running (st (acquire env w1)) then Some (acquire env w1)
          else Q q (acquire env w1) \<bind> P qs))"
    by (rule ext) (rule cons)
  then show ?case
    by (simp only:)
       (intro runs_bind runs_if runs_Some w steady_run_acquire(1)
          runs_after [where g = "acquire env" and F = "\<lambda>v. Q q v \<bind> P qs"]
          query Cons.IH)
qed

lemma flags_desktop_update [simp]:
  "is_running (desktop_update c name s) = is_running s"
  "is_paused (desktop_update c name s) = is_paused s"
  by (simp_all add: desktop_update_def)

lemma flags_mobile_update [simp]:
  "is_running (mobile_update mc name s) = is_running s"
  "is_paused (mobile_update mc name s) = is_paused s"
  by (simp_all add: mobile_update_def)

lemma flags_mobile_searching [simp]:
  "is_running (mobile_searching mq s) = is_running s"
  "is_paused (mobile_searching mq s) = is_paused s"
  by (simp_all add: mobile_searching_def)

lemma steady_run_try_bump [simp]:
  "steady_run b env (try_bump env' name is_pc w) = steady_run b env w"
  by (rule steady_run_same) (simp_all add: try_bump_def)

lemma steady_run_count [simp]:
  "steady_run b env (w\<lparr>completed_l := c\<rparr>) = steady_run b env w"
  by (rule steady_run_same) simp_all

lemma desktop_query_run:
  assumes "steady_run b env w"
  shows "\<exists>w'. desktop_query env delay name q w = Some w' \<and> steady_run b env w'"
proof -
  let ?w0 = "with_lock env (\<lambda>s. s\<lparr>current_search := q, status := ''Searching for: '' @ q\<rparr>) w"
  have "steady_run b env ?w0"
    using assms by (rule steady_run_with_lock) simp_all
  then obtain w1 where w1: "gui_search env q ?w0 = Some w1" and s1: "steady_run b env w1"
    using gui_search_run by blast
  let ?w3 = "try_bump env name True (with_lock env (desktop_update (completed_l w1 + 1) name)
      (w1\<lparr>completed_l := completed_l w1 + 1\<rparr>))"
  have "steady_run b env ?w3"
    using s1 by (simp add: steady_run_with_lock)
  then obtain w' where
    "sleep_with_pause env (max (1 / 10) (delay + uniform env (ticks ?w3) (3 / 20) (3 / 5))) ?w3 = Some w'"
    and "steady_run b env w'"
    using sleep_with_pause_run by blast
  then show ?thesis
    using w1 by (simp add: desktop_query_def Let_def)
qed

lemma desktop_pass_searching:
  "desktop_pass env delay name qs w = Some w' \<Longrightarrow> searching w w'"
proof -
  have "yields searching (desktop_pass env delay name qs)"
    by (rule pass_yields [where Q = "desktop_query env delay name"])
       (simp_all add: yields_def desktop_query_searching)
  then show "desktop_pass env delay name qs w = Some w' \<Longrightarrow> searching w w'"
    by (simp add: yields_def)
qed

lemma desktop_pass_run:
  "steady_run b env w \<Longrightarrow> \<exists>w'. desktop_pass env delay name qs w = Some w' \<and> steady_run b env w'"
proof -
  have "runs b env (desktop_pass env delay name qs)"
    by (rule pass_runs [where Q = "desktop_query env delay name"])
       (simp_all add: runs_def desktop_query_run)
  then show "steady_run b env w \<Longrightarrow>
      \<exists>w'. desktop_pass env delay name qs w = Some w' \<and> steady_run b env w'"
    by (simp add: runs_def)
qed

lemma playwright_query_searching:
  assumes "playwright_query env delay name mq w = Some w'"
  shows "searching w w'"
proof -
  let ?w1 = "with_lock env (mobile_searching mq) w"
  let ?w2 = "emit (PlaywrightSearch mq (\<not> pw_search_raises env (ticks ?w1))) ?w1"
  let ?w3 = "with_lock env (mobile_update (mobile_search_count env) name) ?w2"
  let ?w4 = "try_bump env name False ?w3"
  have rest: "sleep_with_pause env
      (max (1 / 10) (delay + uniform env (ticks ?w4) (3 / 10) (9 / 10))) ?w4 = Some w'"
    using assms by (simp add: playwright_query_def Let_def)
  have "searching w ?w1" by (rule searching_with_lock) (rule advances_labels)
  also have "searching ?w1 ?w2" by (rule searching_emit)
  also have "searching ?w2 ?w3" by (rule searching_with_lock) (rule advances_mobile_update)
  also have "searching ?w3 ?w4" by (rule searching_try_bump)
  also have "searching ?w4 w'" using rest by (rule searching_sleep)
  finally show ?thesis .
qed

lemma playwright_query_run:
  assumes "steady_run b env w"
  shows "\<exists>w'. playwright_query env delay name mq w = Some w' \<and> steady_run b env w'"
proof -
  let ?w1 = "with_lock env (mobile_searching mq) w"
  let ?w2 = "emit (PlaywrightSearch mq (\<not> pw_search_raises env (ticks ?w1))) ?w1"
  let ?w4 = "try_bump env name False (with_lock env (mobile_update (mobile_search_count env) name) ?w2)"
  have "steady_run b env ?w1" using assms by (rule steady_run_with_lock) simp_all
  then have "steady_run b env ?w4" by (simp add: steady_run_with_lock)
  then obtain w' where
    "sleep_with_pause env (max (1 / 10) (delay + uniform env (ticks ?w4) (3 / 10) (9 / 10))) ?w4 = Some w'"
    and "steady_run b env w'"
    using sleep_with_pause_run by blast
  then show ?thesis by (simp add: playwright_query_def Let_def)
qed

lemma fallback_query_searching:
  assumes "fallback_query env delay name mq w = Some w'"
  shows "searching w w'"
proof -
  let ?w0 = "with_lock env (mobile_searching mq) w"
  obtain w1 where w1: "gui_search env mq ?w0 = Some w1"
    and rest: "sleep_with_pause env
        (max (1 / 10) (delay + uniform env
           (ticks (try_bump env name False
              (with_lock env (mobile_update (mobile_search_count env) name) w1))) (3 / 20) (3 / 5)))
        (try_bump env name False
           (with_lock env (mobile_update (mobile_search_count env) name) w1)) = Some w'"
    using assms by (auto simp add: fallback_query_def Let_def bind_eq_Some_conv)
  let ?w2 = "with_lock env (mobile_update (mobile_search_count env) name) w1"
  have "searching w ?w0" by (rule searching_with_lock) (rule advances_labels)
  also have "searching ?w0 w1" using w1 by (rule gui_search_searching)
  also have "searching w1 ?w2" by (rule searching_with_lock) (rule advances_mobile_update)
  also have "searching ?w2 (try_bump env name False ?w2)" by (rule searching_try_bump)
  also have "searching (try_bump env name False ?w2) w'" using rest by (rule searching_sleep)
  finally show ?thesis .
qed

lemma fallback_query_run:
  assumes "steady_run b env w"
  shows "\<exists>w'. fallback_query env delay name mq w = Some w' \<and> steady_run b env w'"
proof -
  let ?w0 = "with_lock env (mobile_searching mq) w"
  have "steady_run b env ?w0" using assms by (rule steady_run_with_lock) simp_all
  then obtain w1 where w1: "gui_search env mq ?w0 = Some w1" and s1: "steady_run b env w1"
    using gui_search_run by blast
  let ?w3 = "try_bump env name False (with_lock env (mobile_update (mobile_search_count env) name) w1)"
  have "steady_run b env ?w3" using s1 by (simp add: steady_run_with_lock)
  then obtain w' where
    "sleep_with_pause env (max (1 / 10) (delay + uniform env (ticks ?w3) (3 / 20) (3 / 5))) ?w3 = Some w'"
    and "steady_run b env w'"
    using sleep_with_pause_run by blast
  then show ?thesis using w1 by (simp add: fallback_query_def Let_def)
qed

lemma playwright_pass_searching:
  "playwright_pass env delay name qs w = Some w' \<Longrightarrow> searching w w'"
proof -
  have "yields searching (playwright_pass env delay name qs)"
    by (rule pass_yields [where Q = "playwright_query env delay name"])
       (simp_all add: yields_def playwright_query_searching)
  then show "playwright_pass env delay name qs w = Some w' \<Longrightarrow> searching w w'"
    by (simp add: yields_def)
qed

lemma playwright_pass_run:
  "steady_run b env w \<Longrightarrow>
   \<exists>w'. playwright_pass env delay name qs w = Some w' \<and> steady_run b env w'"
proof -
  have "runs b env (playwright_pass env delay name qs)"
    by (rule pass_runs [where Q = "playwright_query env delay name"])
       (simp_all add: runs_def playwright_query_run)
  then show "steady_run b env w \<Longrightarrow>
      \<exists>w'. playwright_pass env delay name qs w = Some w' \<and> steady_run b env w'"
    by (simp add: runs_def)
qed

lemma fallback_pass_searching:
  "fallback_pass env delay name qs w = Some w' \<Longrightarrow> searching w w'"
proof -
  have "yields searching (fallback_pass env delay name qs)"
    by (rule pass_yields [where Q = "fallback_query env delay name"])
       (simp_all add: yields_def fallback_query_searching)
  then show "fallback_pass env delay name qs w = Some w' \<Longrightarrow> searching w w'"
    by (simp add: yields_def)
qed

lemma fallback_pass_run:
  "steady_run b env w \<Longrightarrow>
   \<exists>w'. fallback_pass env delay name qs w = Some w' \<and> steady_run b env w'"
proof -
  have "runs b env (fallback_pass env delay name qs)"
    by (rule pass_runs [where Q = "fallback_query env delay name"])
       (simp_all add: runs_def fallback_query_run)
  then show "steady_run b env w \<Longrightarrow>
      \<exists>w'. fallback_pass env delay name qs w = Some w' \<and> steady_run b env w'"
    by (simp add: runs_def)
qed

section \<open>The window policy, the mobile stage and the turns\<close>

lemma evolves_with_lock_at:
  assumes "advances (st (acquire env w)) (f (st (acquire env w)))"
  shows "evolves w (with_lock env f w)"
proof -
  have "advances (st w) (st (acquire env w))"
    using evolves_acquire by (simp add: evolves_def)
  then have "advances (st w) (f (st (acquire env w)))"
    using assms advances_trans by blast
  then show ?thesis
    by (simp add: evolves_def with_lock_def acquire_def)
qed

lemma searching_evolves: "searching w w' \<Longrightarrow> evolves w w'"
  by (simp add: searching_def)

lemma evolves_pool:
  "evolves w (w\<lparr>browser_processes := bp\<rparr>)" "evolves w (w\<lparr>completed_profiles := cp\<rparr>)"
  by (rule evolves_local; simp)+

lemma steady_run_pool [simp]:
  "steady_run b env (w\<lparr>browser_processes := bp\<rparr>) = steady_run b env w"
  "steady_run b env (w\<lparr>completed_profiles := cp\<rparr>) = steady_run b env w"
  by (rule steady_run_same; simp)+

lemma evict_oldest_evolves:
  assumes "evict_oldest env w = Some w'"
  shows "evolves w w'"
proof (cases "browser_processes w")
  case Nil
  then show ?thesis using assms by (simp add: evict_oldest_def evolves_refl)
next
  case (Cons a rest)
  obtain h label where a: "a = (h, label)" by (cases a)
  have "terminate_process env h (w\<lparr>browser_processes := rest\<rparr>) = Some w'"
    using assms Cons a by (simp add: evict_oldest_def)
  then have "evolves (w\<lparr>browser_processes := rest\<rparr>) w'" by (rule terminate_process_evolves)
  then show ?thesis using evolves_pool(1) evolves_trans by blast
qed

lemma evict_oldest_run:
  assumes "steady_run b env w"
  shows "\<exists>w'. evict_oldest env w = Some w' \<and> steady_run b env w'"
proof (cases "browser_processes w")
  case Nil
  then show ?thesis using assms by (simp add: evict_oldest_def)
next
  case (Cons a rest)
  obtain h label where a: "a = (h, label)" by (cases a)
  have "steady_run b env (w\<lparr>browser_processes := rest\<rparr>)" using assms by simp
  then show ?thesis
    using terminate_process_run [of b env "w\<lparr>browser_processes := rest\<rparr>" h] Cons a
    by (simp add: evict_oldest_def)
qed

lemma keep_windows_manageable_evolves:
  assumes "keep_windows_manageable env browser name w = Some w'"
  shows "evolves w w'"
proof (cases "length (completed_profiles w) > MAX_ACTIVE_BROWSERS")
  case False
  then show ?thesis using assms by (simp add: keep_windows_manageable_def evolves_refl)
next
  case True
  then obtain w1 w2 where w1: "evict_oldest env (emit (CloseWindows browser) w) = Some w1"
    and w2: "sleep_with_pause env 2 (w1\<lparr>completed_profiles := tl (completed_profiles w1)\<rparr>) = Some w2"
    and w': "w' = with_lock env (\<lambda>s. s\<lparr>status := ''Freed memory, continuing with '' @ name\<rparr>) w2"
    using assms by (auto simp add: keep_windows_manageable_def bind_eq_Some_conv)
  have "evolves w (emit (CloseWindows browser) w)" by (rule evolves_emit)
  also have "evolves (emit (CloseWindows browser) w) w1" using w1 by (rule evict_oldest_evolves)
  also have "evolves w1 (w1\<lparr>completed_profiles := tl (completed_profiles w1)\<rparr>)"
    by (rule evolves_pool)
  also have "evolves (w1\<lparr>completed_profiles := tl (completed_profiles w1)\<rparr>) w2"
    using w2 by (rule sleep_with_pause_evolves)
  also have "evolves w2 w'"
    unfolding w' by (rule evolves_with_lock) (rule advances_labels)
  finally show ?thesis .
qed

lemma keep_windows_manageable_run:
  assumes "steady_run b env w"
  shows "\<exists>w'. keep_windows_manageable env browser name w = Some w' \<and> steady_run b env w'"
proof (cases "length (completed_profiles w) > MAX_ACTIVE_BROWSERS")
  case False
  then show ?thesis using assms by (simp add: keep_windows_manageable_def)
next
  case True
  have "steady_run b env (emit (CloseWindows browser) w)" using assms by simp
  then obtain w1 where w1: "evict_oldest env (emit (CloseWindows browser) w) = Some w1"
    and s1: "steady_run b env w1"
    using evict_oldest_run by blast
  have "steady_run b env (w1\<lparr>completed_profiles := tl (completed_profiles w1)\<rparr>)"
    using s1 by simp
  then obtain w2 where
    w2: "sleep_with_pause env 2 (w1\<lparr>completed_profiles := tl (completed_profiles w1)\<rparr>) = Some w2"
    and s2: "steady_run b env w2"
    using sleep_with_pause_run by blast
  have "steady_run b env
      (with_lock env (\<lambda>s. s\<lparr>status := ''Freed memory, continuing with '' @ name\<rparr>) w2)"
    using s2 by (rule steady_run_with_lock) simp_all
  then show ?thesis
    using True w1 w2 by (simp add: keep_windows_manageable_def)
qed

lemma mobile_fallback_evolves:
  assumes "mobile_fallback env delay browser name dir mqueries w = Some w'"
  shows "evolves w w'"
proof -
  let ?w1 = "with_lock env
      (\<lambda>s. s\<lparr>status := ''Opening '' @ browser @ '' (mobile UA) for profile: '' @ name\<rparr>) w"
  let ?e = "emit (LaunchMobileBrowser browser dir (launch_mobile_browser env browser ?w1)) ?w1"
  let ?w2 = "track (launch_mobile_browser env browser ?w1) (name @ '' (mobile)'') ?e"
  obtain w3 where w3: "sleep_with_pause env 3 ?w2 = Some w3"
    and rest: "fallback_pass env delay name mqueries w3 = Some w'"
    using assms by (auto simp add: mobile_fallback_def Let_def bind_eq_Some_conv)
  have "evolves w ?w1" by (rule evolves_with_lock) (rule advances_labels)
  also have "evolves ?w1 ?e" by (rule evolves_emit)
  also have "evolves ?e ?w2" by (rule evolves_track)
  also have "evolves ?w2 w3" using w3 by (rule sleep_with_pause_evolves)
  also have "evolves w3 w'" using rest fallback_pass_searching searching_evolves by blast
  finally show ?thesis .
qed

lemma mobile_fallback_run:
  assumes "steady_run b env w"
  shows "\<exists>w'. mobile_fallback env delay browser name dir mqueries w = Some w' \<and>
           steady_run b env w'"
proof -
  let ?w1 = "with_lock env
      (\<lambda>s. s\<lparr>status := ''Opening '' @ browser @ '' (mobile UA) for profile: '' @ name\<rparr>) w"
  let ?w2 = "track (launch_mobile_browser env browser ?w1) (name @ '' (mobile)'')
      (emit (LaunchMobileBrowser browser dir (launch_mobile_browser env browser ?w1)) ?w1)"
  have "steady_run b env ?w1" using assms by (rule steady_run_with_lock) simp_all
  then have "steady_run b env ?w2" by simp
  then obtain w3 where w3: "sleep_with_pause env 3 ?w2 = Some w3" and s3: "steady_run b env w3"
    using sleep_with_pause_run by blast
  obtain w' where "fallback_pass env delay name mqueries w3 = Some w'" and "steady_run b env w'"
    using fallback_pass_run [OF s3] by blast
  then show ?thesis using w3 by (simp add: mobile_fallback_def Let_def)
qed

lemma ctl_only_acquire: "ctl_only (st w) (st (acquire env w))"
  by (simp add: st_acquire ctl_only_serve_all)

lemma ctl_only_fields:
  assumes "ctl_only s s'"
  shows "profile_progress s' = profile_progress s" "mobile_progress s' = mobile_progress s"
    "profile_eligibility s' = profile_eligibility s" "mobile_enabled s' = mobile_enabled s"
    "total s' = total s" "completed s' = completed s" "progress s' = progress s"
    "current_search s' = current_search s" "current_profile s' = current_profile s"
proof -
  have eq: "s' = s\<lparr>is_running := is_running s', is_paused := is_paused s', status := status s'\<rparr>"
    using assms by (simp add: ctl_only_def)
  show "profile_progress s' = profile_progress s" "mobile_progress s' = mobile_progress s"
    "profile_eligibility s' = profile_eligibility s" "mobile_enabled s' = mobile_enabled s"
    "total s' = total s" "completed s' = completed s" "progress s' = progress s"
    "current_search s' = current_search s" "current_profile s' = current_profile s"
    by (subst eq, simp)+
qed

lemma advances_seed:
  assumes "m = mobile_progress s" and "m name = None" and "0 \<le> t"
  shows "advances s (s\<lparr>mobile_progress := m(name \<mapsto> \<lparr>pdone = 0, ptotal = t\<rparr>)\<rparr>)"
proof -
  have g: "entries_grow m (m(name \<mapsto> \<lparr>pdone = 0, ptotal = t\<rparr>))"
    using assms(2) by (auto simp add: entries_grow_def)
  have k: "entries_capped (m(name \<mapsto> \<lparr>pdone = 0, ptotal = t\<rparr>))" if "entries_capped m"
    using that assms(3) by (auto simp add: entries_capped_def)
  show ?thesis
    unfolding advances_def capped_def using g k assms(1) by (simp add: entries_grow_refl)
qed

lemma mobile_stage_evolves:
  assumes "mobile_stage env fruits delay browser name dir w = Some w'"
  shows "evolves w w'"
proof (cases "mobile_ok env name (st (acquire env w))")
  case False
  then have "w' = acquire env w" using assms by (simp add: mobile_stage_def Let_def)
  then show ?thesis by (simp add: evolves_acquire)
next
  case True
  let ?w1 = "acquire env w"
  let ?f = "\<lambda>s. if mobile_progress (st ?w1) name = None
                  then s\<lparr>mobile_progress := (mobile_progress s)(name \<mapsto>
                         \<lparr>pdone = 0, ptotal = mobile_search_count env\<rparr>)\<rparr>
                  else s"
  let ?w2 = "with_lock env ?f ?w1"
  let ?mq = "if build_queries fruits (mobile_search_count env) = [] then default_mobile_queries
             else build_queries fruits (mobile_search_count env)"
  let ?w3 = "with_lock env (\<lambda>s. s\<lparr>status := ''Opening Playwright mobile for: '' @ name\<rparr>) ?w2"
  have pos: "0 \<le> mobile_search_count env" using True by (simp add: mobile_ok_def)
  have same: "mobile_progress (st (acquire env ?w1)) = mobile_progress (st ?w1)"
    using ctl_only_acquire ctl_only_fields(2) by blast
  have "advances (st (acquire env ?w1)) (?f (st (acquire env ?w1)))"
  proof (cases "mobile_progress (st ?w1) name = None")
    case True
    then have n: "mobile_progress (st (acquire env ?w1)) name = None" using same by simp
    have "advances (st (acquire env ?w1))
        ((st (acquire env ?w1))\<lparr>mobile_progress := (mobile_progress (st (acquire env ?w1)))(name \<mapsto>
           \<lparr>pdone = 0, ptotal = mobile_search_count env\<rparr>)\<rparr>)"
      by (rule advances_seed [OF refl n pos])
    then show ?thesis using True by simp
  next
    case False
    show ?thesis by (simp only: False if_False advances_refl)
  qed
  then have e2: "evolves ?w1 ?w2" by (rule evolves_with_lock_at)
  have e1: "evolves w ?w1" by (rule evolves_acquire)
  have e3: "evolves ?w2 ?w3" by (rule evolves_with_lock) (rule advances_labels)
  have tail: "evolves ?w2 w'"
  proof (cases "have_playwright env")
    case False
    then have "mobile_fallback env delay browser name dir ?mq ?w2 = Some w'"
      using assms True by (simp add: mobile_stage_def Let_def)
    then show ?thesis by (rule mobile_fallback_evolves)
  next
    case True
    note pw = True
    show ?thesis
    proof (cases "pw_enter_raises env (ticks ?w3)")
      case True
      then have "mobile_fallback env delay browser name dir ?mq
          (emit (PlaywrightOpen name False) ?w3) = Some w'"
        using assms pw \<open>mobile_ok env name (st ?w1)\<close> by (simp add: mobile_stage_def Let_def)
      then have "evolves (emit (PlaywrightOpen name False) ?w3) w'"
        by (rule mobile_fallback_evolves)
      then show ?thesis using e3 evolves_emit evolves_trans by blast
    next
      case False
      then obtain w4 where w4: "playwright_pass env delay name ?mq
          (emit (PlaywrightOpen name True) ?w3) = Some w4"
        and w': "w' = emit (PlaywrightClose name) w4"
        using assms pw \<open>mobile_ok env name (st ?w1)\<close>
        by (auto simp add: mobile_stage_def Let_def bind_eq_Some_conv)
      have "evolves ?w2 ?w3" by (rule e3)
      also have "evolves ?w3 (emit (PlaywrightOpen name True) ?w3)" by (rule evolves_emit)
      also have "evolves (emit (PlaywrightOpen name True) ?w3) w4"
        using w4 playwright_pass_searching searching_evolves by blast
      also have "evolves w4 w'" unfolding w' by (rule evolves_emit)
      finally show ?thesis .
    qed
  qed
  show ?thesis using e1 e2 tail evolves_trans by blast
qed

lemma mobile_stage_run:
  assumes "steady_run b env w"
  shows "\<exists>w'. mobile_stage env fruits delay browser name dir w = Some w' \<and> steady_run b env w'"
proof (cases "mobile_ok env name (st (acquire env w))")
  case False
  then show ?thesis
    using steady_run_acquire(1) [OF assms] by (simp add: mobile_stage_def Let_def)
next
  case True
  let ?w1 = "acquire env w"
  let ?f = "\<lambda>s. if mobile_progress (st ?w1) name = None
                  then s\<lparr>mobile_progress := (mobile_progress s)(name \<mapsto>
                         \<lparr>pdone = 0, ptotal = mobile_search_count env\<rparr>)\<rparr>
                  else s"
  let ?w2 = "with_lock env ?f ?w1"
  let ?mq = "if build_queries fruits (mobile_search_count env) = [] then default_mobile_queries
             else build_queries fruits (mobile_search_count env)"
  let ?w3 = "with_lock env (\<lambda>s. s\<lparr>status := ''Opening Playwright mobile for: '' @ name\<rparr>) ?w2"
  have "steady_run b env ?w1" using assms by (rule steady_run_acquire(1))
  then have s2: "steady_run b env ?w2" by (rule steady_run_with_lock) simp_all
  then have s3: "steady_run b env ?w3" by (rule steady_run_with_lock) simp_all
  show ?thesis
  proof (cases "have_playwright env")
    case False
    then show ?thesis
      using mobile_fallback_run [OF s2, of delay browser name dir ?mq] True
      by (simp add: mobile_stage_def Let_def)
  next
    case True
    note pw = True
    show ?thesis
    proof (cases "pw_enter_raises env (ticks ?w3)")
      case True
      have "steady_run b env (emit (PlaywrightOpen name False) ?w3)" using s3 by simp
      then show ?thesis
        using mobile_fallback_run [of b env "emit (PlaywrightOpen name False) ?w3" delay browser
            name dir ?mq] True pw \<open>mobile_ok env name (st ?w1)\<close>
        by (simp add: mobile_stage_def Let_def)
    next
      case False
      have "steady_run b env (emit (PlaywrightOpen name True) ?w3)" using s3 by simp
      then obtain w4 where "playwright_pass env delay name ?mq
          (emit (PlaywrightOpen name True) ?w3) = Some w4" and "steady_run b env w4"
        using playwright_pass_run by blast
      then show ?thesis
        using False pw \<open>mobile_ok env name (st ?w1)\<close> by (simp add: mobile_stage_def Let_def)
    qed
  qed
qed

lemma profile_turn_evolves:
  assumes "profile_turn env fruits delay browser name dir w = Some w'"
  shows "evolves w w'"
proof -
  let ?w1 = "with_lock env
      (\<lambda>s. s\<lparr>current_profile := name,
             status := ''Opening '' @ browser @ '' for profile: '' @ name\<rparr>) w"
  let ?e = "emit (LaunchBrowser browser dir (launch_browser env browser ?w1)) ?w1"
  let ?w2 = "track (launch_browser env browser ?w1) name ?e"
  obtain w3 w4 w5 where w3: "sleep_with_pause env 3 ?w2 = Some w3"
    and w4: "desktop_pass env delay name
        (build_queries fruits (desktop_total_of fruits name (st ?w1))) w3 = Some w4"
    and w5: "keep_windows_manageable env browser name
        (w4\<lparr>completed_profiles := completed_profiles w4 @ [name]\<rparr>) = Some w5"
    and w': "mobile_stage env fruits delay browser name dir w5 = Some w'"
    using assms by (auto simp add: profile_turn_def Let_def bind_eq_Some_conv)
  have "evolves w ?w1" by (rule evolves_with_lock) (rule advances_labels)
  also have "evolves ?w1 ?e" by (rule evolves_emit)
  also have "evolves ?e ?w2" by (rule evolves_track)
  also have "evolves ?w2 w3" using w3 by (rule sleep_with_pause_evolves)
  also have "evolves w3 w4" using w4 desktop_pass_searching searching_evolves by blast
  also have "evolves w4 (w4\<lparr>completed_profiles := completed_profiles w4 @ [name]\<rparr>)"
    by (rule evolves_pool)
  also have "evolves (w4\<lparr>completed_profiles := completed_profiles w4 @ [name]\<rparr>) w5"
    using w5 by (rule keep_windows_manageable_evolves)
  also have "evolves w5 w'" using w' by (rule mobile_stage_evolves)
  finally show ?thesis .
qed

lemma profile_turn_run:
  assumes "steady_run b env w"
  shows "\<exists>w'. profile_turn env fruits delay browser name dir w = Some w' \<and> steady_run b env w'"
proof -
  let ?w1 = "with_lock env
      (\<lambda>s. s\<lparr>current_profile := name,
             status := ''Opening '' @ browser @ '' for profile: '' @ name\<rparr>) w"
  let ?w2 = "track (launch_browser env browser ?w1) name
      (emit (LaunchBrowser browser dir (launch_browser env browser ?w1)) ?w1)"
  have "steady_run b env ?w1" using assms by (rule steady_run_with_lock) simp_all
  then have "steady_run b env ?w2" by simp
  then obtain w3 where w3: "sleep_with_pause env 3 ?w2 = Some w3" and s3: "steady_run b env w3"
    using sleep_with_pause_run by blast
  obtain w4 where w4: "desktop_pass env delay name
        (build_queries fruits (desktop_total_of fruits name (st ?w1))) w3 = Some w4"
    and s4: "steady_run b env w4"
    using desktop_pass_run [OF s3] by blast
  have "steady_run b env (w4\<lparr>completed_profiles := completed_profiles w4 @ [name]\<rparr>)"
    using s4 by simp
  then obtain w5 where w5: "keep_windows_manageable env browser name
        (w4\<lparr>completed_profiles := completed_profiles w4 @ [name]\<rparr>) = Some w5"
    and s5: "steady_run b env w5"
    using keep_windows_manageable_run by blast
  obtain w' where "mobile_stage env fruits delay browser name dir w5 = Some w'"
    and "steady_run b env w'"
    using mobile_stage_run [OF s5] by blast
  then show ?thesis
    using w3 w4 w5 by (simp add: profile_turn_def Let_def)
qed

lemma profiles_loop_evolves:
  "profiles_loop env fruits delay browser ps w = Some (oc, w') \<Longrightarrow> evolves w w'"
proof (induction ps arbitrary: w)
  case Nil
  then show ?case by (simp add: evolves_refl)
next
  case (Cons p ps)
  show ?case
  proof (cases "is_running (st (acquire env w))")
    case False
    then have "w' = acquire env w" using Cons.prems by simp
    then show ?thesis by (simp add: evolves_acquire)
  next
    case True
    note run = True
    show ?thesis
    proof (cases "pname p")
      case None
      then have "w' = acquire env w" using Cons.prems run by simp
      then show ?thesis by (simp add: evolves_acquire)
    next
      case (Some name)
      then obtain w1 where w1: "profile_turn env fruits delay browser name (directory p)
          (acquire env w) = Some w1"
        and rest: "profiles_loop env fruits delay browser ps w1 = Some (oc, w')"
        using Cons.prems run by (auto simp add: bind_eq_Some_conv)
      have "evolves w (acquire env w)" by (rule evolves_acquire)
      also have "evolves (acquire env w) w1" using w1 by (rule profile_turn_evolves)
      also have "evolves w1 w'" using rest by (rule Cons.IH)
      finally show ?thesis .
    qed
  qed
qed

lemma profiles_loop_run:
  "steady_run b env w \<Longrightarrow>
   \<exists>oc w'. profiles_loop env fruits delay browser ps w = Some (oc, w') \<and> steady_run b env w'"
proof (induction ps arbitrary: w)
  case Nil
  then show ?case by simp
next
  case (Cons p ps)
  have sa: "steady_run b env (acquire env w)" using Cons.prems by (rule steady_run_acquire(1))
  show ?case
  proof (cases "is_running (st (acquire env w))")
    case False
    then show ?thesis using sa by simp
  next
    case True
    note run = True
    show ?thesis
    proof (cases "pname p")
      case None
      then show ?thesis using sa run by simp
    next
      case (Some name)
      obtain w1 where w1: "profile_turn env fruits delay browser name (directory p)
          (acquire env w) = Some w1" and s1: "steady_run b env w1"
        using profile_turn_run [OF sa] by blast
      show ?thesis using Cons.IH [OF s1] w1 run Some by simp
    qed
  qed
qed

lemma terminate_all_evolves:
  "terminate_all env hs w = Some w' \<Longrightarrow> evolves w w'"
proof (induction hs arbitrary: w)
  case Nil
  then show ?case by (simp add: evolves_refl)
next
  case (Cons a hs)
  obtain h label where a: "a = (h, label)" by (cases a)
  obtain w1 where "terminate_process env h w = Some w1" and "terminate_all env hs w1 = Some w'"
    using Cons.prems a by (auto simp add: bind_eq_Some_conv)
  then show ?case using terminate_process_evolves Cons.IH evolves_trans by blast
qed

lemma terminate_all_run:
  "steady_run b env w \<Longrightarrow> \<exists>w'. terminate_all env hs w = Some w' \<and> steady_run b env w'"
proof (induction hs arbitrary: w)
  case Nil
  then show ?case by simp
next
  case (Cons a hs)
  obtain h label where a: "a = (h, label)" by (cases a)
  obtain w1 where w1: "terminate_process env h w = Some w1" and s1: "steady_run b env w1"
    using terminate_process_run [OF Cons.prems] by blast
  show ?case using Cons.IH [OF s1] w1 a by simp
qed

lemma teardown_state:
  assumes "teardown env w = Some w'"
  shows "\<exists>v. terminate_all env (browser_processes w) w = Some v \<and>
             w' = with_lock env terminal_state v"
  using assms by (auto simp add: teardown_def bind_eq_Some_conv)

lemma teardown_final:
  assumes "teardown env w = Some w'"
  shows "\<not> is_running (st w') \<and> \<not> is_paused (st w') \<and> current_search (st w') = [] \<and>
         current_profile (st w') = [] \<and>
         status (st w') = (if completed (st w') \<ge> total (st w') then ''Automation completed''
                           else ''Automation stopped'')"
proof -
  obtain v where "w' = with_lock env terminal_state v" using teardown_state [OF assms] by blast
  then show ?thesis by (simp add: with_lock_def terminal_state_def)
qed

lemma teardown_evolves:
  assumes "teardown env w = Some w'"
  shows "evolves w w'"
proof -
  obtain v where v: "terminate_all env (browser_processes w) w = Some v"
    and w': "w' = with_lock env terminal_state v"
    using teardown_state [OF assms] by blast
  have "evolves w v" using v by (rule terminate_all_evolves)
  also have "evolves v w'" unfolding w' by (rule evolves_with_lock) (rule advances_terminal)
  finally show ?thesis .
qed

lemma teardown_run:
  assumes "steady_run b env w"
  shows "\<exists>w'. teardown env w = Some w'"
proof -
  obtain v where "terminate_all env (browser_processes w) w = Some v"
    using terminate_all_run [OF assms] by blast
  then show ?thesis by (simp add: teardown_def)
qed

lemma steady_run_locals:
  "steady_run b env (w\<lparr>completed_l := c, browser_processes := bp, completed_profiles := cp\<rparr>) =
   steady_run b env w"
  by (rule steady_run_same) simp_all

lemma automation_worker_returns:
  assumes "steady_run b env w"
  shows "\<exists>w'. automation_worker env fruits delay browser profiles w = Some w'"
proof -
  let ?w0 = "w\<lparr>completed_l := 0, browser_processes := [], completed_profiles := []\<rparr>"
  have "steady_run b env ?w0" using assms by (simp only: steady_run_locals)
  then obtain oc w1 where "worker_body env fruits delay browser profiles w = Some (oc, w1)"
    and "steady_run b env w1"
    unfolding worker_body_def using profiles_loop_run by blast
  then show ?thesis
    using teardown_run [of b env w1] by (auto simp add: automation_worker_def)
qed

lemma automation_worker_advances:
  assumes "automation_worker env fruits delay browser profiles w = Some w'"
  shows "advances (st w) (st w')"
proof -
  let ?w0 = "w\<lparr>completed_l := 0, browser_processes := [], completed_profiles := []\<rparr>"
  obtain oc w1 where b: "worker_body env fruits delay browser profiles w = Some (oc, w1)"
    and t: "teardown env w1 = Some w'"
    using assms by (auto simp add: automation_worker_def bind_eq_Some_conv)
  have "evolves ?w0 w1" using b unfolding worker_body_def by (rule profiles_loop_evolves)
  then have "evolves ?w0 w'" using teardown_evolves [OF t] evolves_trans by blast
  then show ?thesis by (simp add: evolves_def)
qed

text \<open>
  Claim C3. Whatever way the body of the worker's \<open>try\<close> ends (to its end, after a
  \<open>break\<close>, or with any exception, \<open>FailSafeException\<close> included), the worker continues
  with the teardown; when the worker returns, \<open>is_running\<close> and \<open>is_paused\<close> are
  false, \<open>current_search\<close> and \<open>current_profile\<close> are empty, and \<open>status\<close> is
  "Automation completed" if \<open>completed \<ge> total\<close> and "Automation stopped" otherwise. The
  teardown itself returns, and so does the whole worker, from every world in which no
  pause can hold the run for ever.
\<close>

theorem teardown_always:
  "(\<forall>oc w1. worker_body env fruits delay browser profiles w = Some (oc, w1) \<longrightarrow>
      automation_worker env fruits delay browser profiles w = teardown env w1) \<and>
   (\<forall>w'. automation_worker env fruits delay browser profiles w = Some w' \<longrightarrow>
      \<not> is_running (st w') \<and> \<not> is_paused (st w') \<and> current_search (st w') = [] \<and>
      current_profile (st w') = [] \<and>
      status (st w') = (if completed (st w') \<ge> total (st w') then ''Automation completed''
                        else ''Automation stopped'')) \<and>
   (\<forall>v. steady_run b env v \<longrightarrow> (\<exists>w'. teardown env v = Some w')) \<and>
   (steady_run b env w \<longrightarrow>
      (\<exists>w'. automation_worker env fruits delay browser profiles w = Some w'))"
proof -
  have a: "automation_worker env fruits delay browser profiles w = teardown env w1"
    if "worker_body env fruits delay browser profiles w = Some (oc, w1)" for oc w1
    using that by (simp add: automation_worker_def)
  have b: "\<not> is_running (st w') \<and> \<not> is_paused (st w') \<and> current_search (st w') = [] \<and>
      current_profile (st w') = [] \<and>
      status (st w') = (if completed (st w') \<ge> total (st w') then ''Automation completed''
                        else ''Automation stopped'')"
    if aw: "automation_worker env fruits delay browser profiles w = Some w'" for w'
  proof -
    obtain w1 where "teardown env w1 = Some w'"
      using aw by (auto simp add: automation_worker_def bind_eq_Some_conv)
    then show ?thesis by (rule teardown_final)
  qed
  show ?thesis
    using a b teardown_run automation_worker_returns by blast
qed

section \<open>What one query does\<close>

lemma idle_refl: "idle w w"
  by (simp add: idle_def ctl_only_refl)

lemma idle_trans: "idle w w' \<Longrightarrow> idle w' w'' \<Longrightarrow> idle w w''"
  unfolding idle_def using ctl_only_trans by (metis order_trans)

lemma transp_idle: "transp idle"
  using idle_trans by (auto intro: transpI)

lemma paced_idle: "paced w w' \<Longrightarrow> idle w w'"
  by (simp add: paced_def idle_def)

lemma idle_emit: "idle w (emit e w)"
  by (simp add: idle_def emit_def ctl_only_refl)

lemma idle_if_emit: "idle w (if c w then emit e w else w)"
  by (simp add: idle_emit idle_refl)

lemma yields_sleep_idle: "yields idle (sleep_with_pause env seconds)"
  using sleep_with_pause_paced paced_idle by (auto simp add: yields_def)

lemma gui_search_idle: "gui_search env q w = Some w' \<Longrightarrow> idle w w'"
proof -
  have "gui_search env q = (\<lambda>w.
     if gui_raises env (ticks w) then Some w
      else sleep_with_pause env (1 / 2) (emit (Hotkey ''ctrl+t'') w) \<bind> (\<lambda>w1.
        if gui_raises env (ticks w1) then Some w1
        else sleep_with_pause env (3 / 10) (emit (Hotkey ''ctrl+l'') w1) \<bind> (\<lambda>w2.
          if gui_raises env (ticks w2) then Some w2
          else sleep_with_pause env (1 / 5) (emit (Typewrite q) w2) \<bind> (\<lambda>w3.
            if gui_raises env (ticks w3) then Some w3
            else Some (emit PressEnter w3)))))"
    by (rule ext) (simp add: gui_search_def)
  then have "yields idle (gui_search env q)"
    by (simp only:)
       (intro yields_if yields_bind yields_Some transp_idle
          yields_after [where F = "sleep_with_pause env d" and g = "emit e" for d e]
          yields_sleep_idle idle_refl idle_emit)
  then show "gui_search env q w = Some w' \<Longrightarrow> idle w w'"
    by (simp add: yields_def)
qed

lemma terminate_process_idle: "terminate_process env h w = Some w' \<Longrightarrow> idle w w'"
proof -
  have "terminate_process env h = (\<lambda>w.
     if proc_raises env (ticks w) then Some w
      else sleep_with_pause env (1 / 2) (emit (Terminate h) w) \<bind>
           (\<lambda>w'. Some (if proc_alive env (ticks w') then emit (Kill h) w' else w')))"
    by (rule ext) (simp add: terminate_process_def)
  then have "yields idle (terminate_process env h)"
    by (simp only:)
       (intro yields_if yields_bind yields_Some transp_idle
          yields_after [where F = "sleep_with_pause env d" and g = "emit e" for d e]
          yields_sleep_idle idle_refl idle_emit idle_if_emit)
  then show "terminate_process env h w = Some w' \<Longrightarrow> idle w w'"
    by (simp add: yields_def)
qed

lemma same_counts_refl: "same_counts s s"
  by (simp add: same_counts_def)

lemma same_counts_trans: "same_counts s s' \<Longrightarrow> same_counts s' s'' \<Longrightarrow> same_counts s s''"
  by (simp add: same_counts_def)

lemma ctl_only_same_counts: "ctl_only s s' \<Longrightarrow> same_counts s s'"
  by (simp add: same_counts_def ctl_only_fields)

lemma same_counts_acquire: "same_counts (st w) (st (acquire env w))"
  using ctl_only_acquire by (rule ctl_only_same_counts)

lemma same_counts_desktop_update:
  "same_counts s s' \<Longrightarrow> same_counts (desktop_update c name s) (desktop_update c name s')"
  by (simp add: same_counts_def desktop_update_def split: option.splits)

lemma desktop_query_effect:
  assumes "desktop_query env delay name q w = Some w'"
  shows "completed_l w' = completed_l w + 1"
    and "same_counts (desktop_update (completed_l w + 1) name (st w)) (st w')"
    and "\<exists>n. store w' = (if store_raises env n then store w
              else bump_profile_progress (today_str env n) (store w) name True 1)"
    and "browser_processes w' = browser_processes w"
proof -
  let ?w0 = "with_lock env (\<lambda>s. s\<lparr>current_search := q, status := ''Searching for: '' @ q\<rparr>) w"
  obtain w1 where w1: "gui_search env q ?w0 = Some w1"
    and rest: "sleep_with_pause env
        (max (1 / 10) (delay + uniform env
           (ticks (try_bump env name True (with_lock env (desktop_update (completed_l w1 + 1) name)
              (w1\<lparr>completed_l := completed_l w1 + 1\<rparr>)))) (3 / 20) (3 / 5)))
        (try_bump env name True (with_lock env (desktop_update (completed_l w1 + 1) name)
           (w1\<lparr>completed_l := completed_l w1 + 1\<rparr>))) = Some w'"
    using assms by (auto simp add: desktop_query_def Let_def bind_eq_Some_conv)
  let ?c = "completed_l w + 1"
  let ?w2 = "w1\<lparr>completed_l := completed_l w1 + 1\<rparr>"
  let ?w3 = "with_lock env (desktop_update (completed_l w1 + 1) name) ?w2"
  let ?w4 = "try_bump env name True ?w3"
  have i1: "idle ?w0 w1" using w1 by (rule gui_search_idle)
  have i4: "idle ?w4 w'" using sleep_with_pause_paced [OF rest] by (rule paced_idle)
  have c1: "completed_l w1 = completed_l w"
    using i1 by (simp add: idle_def with_lock_def acquire_def)
  have s1: "store w1 = store w" and b1: "browser_processes w1 = browser_processes w"
    using i1 by (simp_all add: idle_def with_lock_def acquire_def)
  show "completed_l w' = completed_l w + 1"
    using i4 c1 by (simp add: idle_def try_bump_def with_lock_def acquire_def)
  show "browser_processes w' = browser_processes w"
    using i4 b1 by (simp add: idle_def try_bump_def with_lock_def acquire_def)
  have st0: "same_counts (st w) (st ?w0)"
    using same_counts_acquire [of w env] by (simp add: same_counts_def with_lock_def)
  have st1: "same_counts (st ?w0) (st w1)"
    using i1 by (simp add: idle_def ctl_only_same_counts)
  have st2: "same_counts (st w1) (st (acquire env ?w2))"
    using same_counts_acquire [of ?w2 env] by simp
  have pre: "same_counts (st w) (st (acquire env ?w2))"
    using st0 st1 st2 same_counts_trans by blast
  have upd: "same_counts (desktop_update ?c name (st w))
      (desktop_update ?c name (st (acquire env ?w2)))"
    using pre by (rule same_counts_desktop_update)
  have st3: "st ?w4 = desktop_update ?c name (st (acquire env ?w2))"
    using c1 by (simp add: try_bump_def with_lock_def)
  have st4: "same_counts (st ?w4) (st w')"
    using i4 by (simp add: idle_def ctl_only_same_counts)
  show "same_counts (desktop_update (completed_l w + 1) name (st w)) (st w')"
    using upd st3 st4 same_counts_trans by metis
  have "store w' = store ?w4" using i4 by (simp add: idle_def)
  moreover have "store ?w3 = store w"
    using s1 by (simp add: with_lock_def acquire_def)
  ultimately have "store w' = (if store_raises env (ticks ?w3) then store w
      else bump_profile_progress (today_str env (ticks ?w3)) (store w) name True 1)"
    by (simp add: try_bump_def)
  then show "\<exists>n. store w' = (if store_raises env n then store w
      else bump_profile_progress (today_str env n) (store w) name True 1)"
    by blast
qed


section \<open>Properties of a desktop query\<close>

lemma steady_run_quiet:
  "is_running s \<Longrightarrow> \<not> is_paused s \<Longrightarrow> steady_run b (quiet_env\<lparr>gui_raises := g\<rparr>) (w\<lparr>st := s\<rparr>)"
  by (simp add: steady_run_def quiet_env_def)

lemma steady_run_world_fixture: "steady_run b (quiet_env\<lparr>gui_raises := g\<rparr>) world_fixture"
  by (simp add: steady_run_def quiet_env_def world_fixture_def state_fixture_def
      initial_state_def)

lemma build_queries_length:
  "base \<noteq> [] \<Longrightarrow> 0 \<le> count \<Longrightarrow> length (build_queries base count) = nat count"
  by (simp add: build_queries_def py_prefix_def build_loop_length)

lemma desktop_pass_count:
  "desktop_pass env delay name qs w = Some w' \<Longrightarrow> is_running (st w') \<Longrightarrow> qs \<noteq> [] \<Longrightarrow>
   completed_l w' = completed_l w + int (length qs) \<and>
   completed (st w') = completed_l w' \<and> total (st w') = total (st w) \<and>
   progress (st w') = py_progress (completed_l w') (total (st w))"
proof (induction qs arbitrary: w)
  case Nil
  then show ?case by simp
next
  case (Cons q qs)
  obtain w1 where w1: "wait_if_paused env w = Some w1"
    and rest: "(if \<not> is_running (st (acquire env w1)) then Some (acquire env w1)
                else desktop_query env delay name q (acquire env w1) \<bind>
                     desktop_pass env delay name qs) = Some w'"
    using Cons.prems(1) by (auto simp add: bind_eq_Some_conv)
  let ?a = "acquire env w1"
  have run: "is_running (st ?a)"
  proof (rule ccontr)
    assume "\<not> is_running (st ?a)"
    then have "w' = ?a" using rest by simp
    then show False using \<open>\<not> is_running (st ?a)\<close> Cons.prems(2) by simp
  qed
  then obtain w2 where w2: "desktop_query env delay name q ?a = Some w2"
    and w': "desktop_pass env delay name qs w2 = Some w'"
    using rest by (auto simp add: bind_eq_Some_conv)
  have pa: "paced w ?a"
    using wait_if_paused_paced [OF w1] paced_acquire paced_trans by blast
  have ca: "completed_l ?a = completed_l w" using pa by (simp add: paced_def)
  have ta: "total (st ?a) = total (st w)"
    using pa by (simp add: paced_def ctl_only_fields)
  have c2: "completed_l w2 = completed_l w + 1"
    using desktop_query_effect(1) [OF w2] ca by simp
  have s2: "same_counts (desktop_update (completed_l w + 1) name (st ?a)) (st w2)"
    using desktop_query_effect(2) [OF w2] ca by simp
  have f2: "completed (st w2) = completed_l w2" "total (st w2) = total (st w)"
    "progress (st w2) = py_progress (completed_l w2) (total (st w))"
    using s2 c2 ta by (simp_all add: same_counts_def desktop_update_def)
  show ?case
  proof (cases "qs = []")
    case True
    then have "w' = w2" using w' by simp
    then show ?thesis using c2 f2 True by simp
  next
    case False
    have "completed_l w' = completed_l w2 + int (length qs) \<and>
        completed (st w') = completed_l w' \<and> total (st w') = total (st w2) \<and>
        progress (st w') = py_progress (completed_l w') (total (st w2))"
      using Cons.IH [OF w' Cons.prems(2) False] .
    then show ?thesis using c2 f2 by simp
  qed
qed




lemma py_progress_11_10: "py_progress 11 10 = 7740561859543041 / 70368744177664"
  by code_simp

text \<open>
  Claim C6. The bound of the claim fails for a run in which the worker's quota for a
  profile is not the one the run's total was computed from. \<open>start_automation\<close> names a
  profile by \<open>name\<close>, or else by \<open>directory\<close>; the worker reads \<open>profile["name"]\<close>
  alone. For \<open>nameless_request\<close> the total is 10 (one profile at level 1, filed under
  \<open>Profile 1\<close>), the worker finds no progress entry under the empty name and takes
  \<open>len(fruits) = 11\<close> as the quota, and the desktop pass ends with \<open>completed = 11\<close>,
  \<open>total = 10\<close> and \<open>progress\<close> the double \<open>110.00000000000001\<close>.
\<close>

theorem nameless_profile_exceeds_total:
  "\<exists>r w'. start_automation ''2025-01-15'' 20 nameless_request (\<lambda>b. []) Map.empty initial_state
             = Inr r \<and>
          sr_profiles r = [\<lparr>pname = Some [], directory = Some ''Profile 1''\<rparr>] \<and>
          total (sr_state r) = 10 \<and>
          desktop_total_of (rq_fruits nameless_request) [] (sr_state r) = 11 \<and>
          desktop_pass quiet_env (sr_delay r) []
            (build_queries (rq_fruits nameless_request)
               (desktop_total_of (rq_fruits nameless_request) [] (sr_state r)))
            (start_world (sr_state r) (sr_info r)) = Some w' \<and>
          completed (st w') = 11 \<and> total (st w') = 10 \<and>
          progress (st w') = py_progress 11 10 \<and>
          py_progress 11 10 = 7740561859543041 / 70368744177664 \<and>
          100 < progress (st w')"
proof -
  obtain r where r: "start_automation ''2025-01-15'' 20 nameless_request (\<lambda>b. []) Map.empty
      initial_state = Inr r"
    by (simp add: start_automation_def nameless_request_def initial_state_def Let_def)
  have ps: "sr_profiles r = [\<lparr>pname = Some [], directory = Some ''Profile 1''\<rparr>]"
    using r by (auto simp add: start_automation_def nameless_request_def initial_state_def
        Let_def resolve_profiles_def)
  have n: "resolved_name \<lparr>pname = Some [], directory = Some ''Profile 1''\<rparr> = ''Profile 1''"
    by (simp add: resolved_name_def str_or_def)
  have st: "sr_state r = initial_state\<lparr>is_running := True, status := ''Starting automation...'',
      total := 10,
      profile_progress := Map.empty(''Profile 1'' \<mapsto> \<lparr>pdone = 0, ptotal = 10\<rparr>),
      profile_points := Map.empty(''Profile 1'' \<mapsto> 1),
      profile_eligibility := Map.empty(''Profile 1'' \<mapsto> \<lparr>mobile = False, reason = ''level < 2''\<rparr>)\<rparr>"
    using r
    by (auto simp add: start_automation_def nameless_request_def initial_state_def Let_def
        resolve_profiles_def quota_step_def n empty_quotas_def get_or_init_profile_def
        get_default_def empty_entry_def desktop_quota_def)
  have t: "total (sr_state r) = 10" by (simp add: st initial_state_def)
  have q: "desktop_total_of (rq_fruits nameless_request) [] (sr_state r) = 11"
    by (simp add: st desktop_total_of_def nameless_request_def initial_state_def)
  let ?qs = "build_queries (rq_fruits nameless_request)
      (desktop_total_of (rq_fruits nameless_request) [] (sr_state r))"
  have len: "length ?qs = 11"
    unfolding q by (subst build_queries_length) (simp_all add: nameless_request_def)
  then have ne: "?qs \<noteq> []" by auto
  let ?w = "start_world (sr_state r) (sr_info r)"
  have "steady_run True (quiet_env\<lparr>gui_raises := gui_raises quiet_env\<rparr>) (?w\<lparr>st := sr_state r\<rparr>)"
    by (rule steady_run_quiet) (simp_all add: st initial_state_def)
  then have s: "steady_run True quiet_env ?w" by (simp add: start_world_def)
  obtain w' where w': "desktop_pass quiet_env (sr_delay r) [] ?qs ?w = Some w'"
    and s': "steady_run True quiet_env w'"
    using desktop_pass_run [OF s] by blast
  have run: "is_running (st w')" using s' by (simp add: steady_run_def)
  have "completed_l w' = completed_l ?w + int (length ?qs) \<and>
      completed (st w') = completed_l w' \<and> total (st w') = total (st ?w) \<and>
      progress (st w') = py_progress (completed_l w') (total (st ?w))"
    using desktop_pass_count [OF w' run ne] .
  then have f: "completed (st w') = 11 \<and> total (st w') = 10 \<and>
      progress (st w') = py_progress 11 10"
    using len t by (simp add: start_world_def)
  have v: "py_progress 11 10 = 7740561859543041 / 70368744177664"
    by (rule py_progress_11_10)
  have "100 < progress (st w')" using f unfolding v by simp
  then show ?thesis using r ps t q w' f v by blast
qed

theorem teardown_always_witness:
  "steady_run True quiet_env world_fixture \<and>
   (\<exists>w'. automation_worker quiet_env [''kiwi'', ''plum'', ''fig''] 3 ''chrome''
           [\<lparr>pname = Some ''Default'', directory = None\<rparr>] world_fixture = Some w' \<and>
         \<not> is_running (st w') \<and> \<not> is_paused (st w') \<and> current_search (st w') = [] \<and>
         current_profile (st w') = []) \<and>
   (\<exists>w'. automation_worker quiet_env [''kiwi'', ''plum'', ''fig''] 3 ''chrome''
           [\<lparr>pname = None, directory = Some ''Profile 1''\<rparr>] world_fixture = Some w' \<and>
         \<not> is_running (st w') \<and> status (st w') = ''Automation stopped'')"
proof -
  have "steady_run True (quiet_env\<lparr>gui_raises := gui_raises quiet_env\<rparr>) world_fixture"
    by (rule steady_run_world_fixture)
  then have s: "steady_run True quiet_env world_fixture" by simp
  note T1 = teardown_always [where env = quiet_env and fruits = "[''kiwi'', ''plum'', ''fig'']"
      and delay = 3 and browser = "''chrome''"
      and profiles = "[\<lparr>pname = Some ''Default'', directory = None\<rparr>]"
      and w = world_fixture and b = True]
  obtain w1 where w1: "automation_worker quiet_env [''kiwi'', ''plum'', ''fig''] 3 ''chrome''
      [\<lparr>pname = Some ''Default'', directory = None\<rparr>] world_fixture = Some w1"
    using T1 s by blast
  have p1: "\<not> is_running (st w1) \<and> \<not> is_paused (st w1) \<and> current_search (st w1) = [] \<and>
      current_profile (st w1) = []"
    using T1 [THEN conjunct2, THEN conjunct1, rule_format, OF w1] by simp
  have body: "worker_body quiet_env [''kiwi'', ''plum'', ''fig''] 3 ''chrome''
      [\<lparr>pname = None, directory = Some ''Profile 1''\<rparr>] world_fixture =
      Some (Raised KeyError,
            acquire quiet_env (world_fixture\<lparr>completed_l := 0, browser_processes := [],
              completed_profiles := []\<rparr>))"
    by (simp add: worker_body_def acquire_def quiet_env_def serve_all_def world_fixture_def
        state_fixture_def initial_state_def)
  have "automation_worker quiet_env [''kiwi'', ''plum'', ''fig''] 3 ''chrome''
      [\<lparr>pname = None, directory = Some ''Profile 1''\<rparr>] world_fixture =
      Some (with_lock quiet_env terminal_state
        (acquire quiet_env (world_fixture\<lparr>completed_l := 0, browser_processes := [],
              completed_profiles := []\<rparr>)))"
    unfolding teardown_always [THEN conjunct1, rule_format, OF body]
    by (simp add: teardown_def acquire_def)
  moreover have "status (st (with_lock quiet_env terminal_state
        (acquire quiet_env (world_fixture\<lparr>completed_l := 0, browser_processes := [],
              completed_profiles := []\<rparr>)))) = ''Automation stopped''"
    by (simp add: with_lock_def acquire_def quiet_env_def serve_all_def terminal_state_def
        world_fixture_def state_fixture_def initial_state_def)
  moreover have "\<not> is_running (st (with_lock quiet_env terminal_state
        (acquire quiet_env (world_fixture\<lparr>completed_l := 0, browser_processes := [],
              completed_profiles := []\<rparr>))))"
    by (simp add: with_lock_def terminal_state_def)
  ultimately show ?thesis using s w1 p1 by blast
qed

section \<open>Properties of the mobile stage\<close>

lemma mobile_ok_same:
  "profile_eligibility s' = profile_eligibility s \<Longrightarrow> mobile_enabled s' = mobile_enabled s \<Longrightarrow>
   mobile_ok env name s' = mobile_ok env name s"
  by (simp add: mobile_ok_def)

lemma mobile_ok_acquire: "mobile_ok env name (st (acquire env w)) = mobile_ok env name (st w)"
  using ctl_only_acquire [of w env] by (intro mobile_ok_same) (simp_all add: ctl_only_fields)

lemma mobile_ok_advances: "advances s s' \<Longrightarrow> mobile_ok env name s' = mobile_ok env name s"
  by (intro mobile_ok_same) (simp_all add: advances_def)


lemma trace_with_lock [simp]: "trace (with_lock env f w) = trace w"
  by (simp add: with_lock_def acquire_def)

lemma trace_acquire [simp]: "trace (acquire env w) = trace w"
  by (simp add: acquire_def)

lemma trace_emit [simp]: "trace (emit e w) = trace w @ [e]"
  by (simp add: emit_def)


lemma mobile_stage_skips:
  "\<not> mobile_ok env name (st w) \<Longrightarrow>
   mobile_stage env fruits delay browser name dir w = Some (acquire env w)"
  by (simp add: mobile_stage_def Let_def mobile_ok_acquire)



section \<open>Properties of the window policy\<close>

lemma idle_pool: "idle w w' \<Longrightarrow> pool_kept w w'"
  by (simp add: idle_def pool_kept_def)

lemma searching_pool: "searching w w' \<Longrightarrow> pool_kept w w'"
  by (simp add: searching_def)

lemma evict_oldest_pool:
  assumes "evict_oldest env w = Some w'"
  shows "browser_processes w' = tl (browser_processes w)"
    and "completed_profiles w' = completed_profiles w"
proof -
  have "browser_processes w' = tl (browser_processes w) \<and>
      completed_profiles w' = completed_profiles w"
  proof (cases "browser_processes w")
    case Nil
    then show ?thesis using assms by (simp add: evict_oldest_def)
  next
    case (Cons a rest)
    obtain h label where a: "a = (h, label)" by (cases a)
    have "terminate_process env h (w\<lparr>browser_processes := rest\<rparr>) = Some w'"
      using assms Cons a by (simp add: evict_oldest_def)
    then have "idle (w\<lparr>browser_processes := rest\<rparr>) w'" by (rule terminate_process_idle)
    then show ?thesis using Cons by (simp add: idle_def)
  qed
  then show "browser_processes w' = tl (browser_processes w)"
    and "completed_profiles w' = completed_profiles w"
    by simp_all
qed

lemma keep_windows_manageable_pool:
  assumes "keep_windows_manageable env browser name w = Some w'"
  shows "browser_processes w' =
           (if length (completed_profiles w) > MAX_ACTIVE_BROWSERS
            then tl (browser_processes w) else browser_processes w)"
    and "completed_profiles w' =
           (if length (completed_profiles w) > MAX_ACTIVE_BROWSERS
            then tl (completed_profiles w) else completed_profiles w)"
proof -
  have "browser_processes w' =
           (if length (completed_profiles w) > MAX_ACTIVE_BROWSERS
            then tl (browser_processes w) else browser_processes w) \<and>
        completed_profiles w' =
           (if length (completed_profiles w) > MAX_ACTIVE_BROWSERS
            then tl (completed_profiles w) else completed_profiles w)"
  proof (cases "length (completed_profiles w) > MAX_ACTIVE_BROWSERS")
    case False
    then show ?thesis using assms by (simp add: keep_windows_manageable_def)
  next
    case True
    then obtain w1 w2 where w1: "evict_oldest env (emit (CloseWindows browser) w) = Some w1"
      and w2: "sleep_with_pause env 2 (w1\<lparr>completed_profiles := tl (completed_profiles w1)\<rparr>) = Some w2"
      and w': "w' = with_lock env (\<lambda>s. s\<lparr>status := ''Freed memory, continuing with '' @ name\<rparr>) w2"
      using assms by (auto simp add: keep_windows_manageable_def bind_eq_Some_conv)
    have b1: "browser_processes w1 = tl (browser_processes w)"
      and c1: "completed_profiles w1 = completed_profiles w"
      using evict_oldest_pool [OF w1] by (simp_all add: emit_def)
    have "paced (w1\<lparr>completed_profiles := tl (completed_profiles w1)\<rparr>) w2"
      using w2 by (rule sleep_with_pause_paced)
    then have "browser_processes w2 = tl (browser_processes w)"
      and "completed_profiles w2 = tl (completed_profiles w)"
      using b1 c1 by (simp_all add: paced_def)
    then show ?thesis using True w' by (simp add: with_lock_def acquire_def)
  qed
  then show "browser_processes w' =
           (if length (completed_profiles w) > MAX_ACTIVE_BROWSERS
            then tl (browser_processes w) else browser_processes w)"
    and "completed_profiles w' =
           (if length (completed_profiles w) > MAX_ACTIVE_BROWSERS
            then tl (completed_profiles w) else completed_profiles w)"
    by simp_all
qed

lemma mobile_fallback_pool:
  assumes "mobile_fallback env delay browser name dir mqueries w = Some w'"
  shows "completed_profiles w' = completed_profiles w"
    and "browser \<in> {''chrome'', ''edge''} \<Longrightarrow> popen_ok env (Suc (ticks w)) \<Longrightarrow>
         length (browser_processes w') = length (browser_processes w) + 1"
proof -
  let ?w1 = "with_lock env
      (\<lambda>s. s\<lparr>status := ''Opening '' @ browser @ '' (mobile UA) for profile: '' @ name\<rparr>) w"
  let ?w2 = "track (launch_mobile_browser env browser ?w1) (name @ '' (mobile)'')
      (emit (LaunchMobileBrowser browser dir (launch_mobile_browser env browser ?w1)) ?w1)"
  obtain w3 where w3: "sleep_with_pause env 3 ?w2 = Some w3"
    and rest: "fallback_pass env delay name mqueries w3 = Some w'"
    using assms by (auto simp add: mobile_fallback_def Let_def bind_eq_Some_conv)
  have k: "pool_kept ?w2 w'"
    using paced_pool_kept [OF sleep_with_pause_paced [OF w3]]
      searching_pool [OF fallback_pass_searching [OF rest]] pool_kept_trans by blast
  show "completed_profiles w' = completed_profiles w"
    using k by (simp add: pool_kept_def track_def emit_def with_lock_def acquire_def
        split: option.splits)
  show "length (browser_processes w') = length (browser_processes w) + 1"
    if "browser \<in> {''chrome'', ''edge''}" and "popen_ok env (Suc (ticks w))"
  proof -
    have "launch_mobile_browser env browser ?w1 = Some (Suc (ticks w))"
      using that by (simp add: launch_mobile_browser_def with_lock_def acquire_def)
    then have "browser_processes ?w2 =
        browser_processes w @ [(Suc (ticks w), name @ '' (mobile)'')]"
      by (simp add: track_def emit_def with_lock_def acquire_def)
    then show ?thesis using k by (simp add: pool_kept_def)
  qed
qed

lemma mobile_stage_pool:
  assumes "mobile_stage env fruits delay browser name dir w = Some w'"
  shows "completed_profiles w' = completed_profiles w"
    and "\<not> mobile_ok env name (st w) \<Longrightarrow> browser_processes w' = browser_processes w"
    and "mobile_ok env name (st w) \<Longrightarrow> \<not> have_playwright env \<Longrightarrow>
         browser \<in> {''chrome'', ''edge''} \<Longrightarrow> \<forall>n. popen_ok env n \<Longrightarrow>
         length (browser_processes w') = length (browser_processes w) + 1"
proof -
  let ?w1 = "acquire env w"
  let ?f = "\<lambda>s. if mobile_progress (st ?w1) name = None
                  then s\<lparr>mobile_progress := (mobile_progress s)(name \<mapsto>
                         \<lparr>pdone = 0, ptotal = mobile_search_count env\<rparr>)\<rparr>
                  else s"
  let ?w2 = "with_lock env ?f ?w1"
  let ?mq = "if build_queries fruits (mobile_search_count env) = [] then default_mobile_queries
             else build_queries fruits (mobile_search_count env)"
  let ?w3 = "with_lock env (\<lambda>s. s\<lparr>status := ''Opening Playwright mobile for: '' @ name\<rparr>) ?w2"
  have p2: "browser_processes ?w2 = browser_processes w"
    "completed_profiles ?w2 = completed_profiles w"
    "browser_processes ?w3 = browser_processes w"
    "completed_profiles ?w3 = completed_profiles w"
    by (simp_all add: with_lock_def acquire_def)
  show no: "browser_processes w' = browser_processes w" if "\<not> mobile_ok env name (st w)"
  proof -
    have "w' = acquire env w" using that assms by (simp add: mobile_stage_skips)
    then show ?thesis by (simp add: acquire_def)
  qed
  show "completed_profiles w' = completed_profiles w"
  proof (cases "mobile_ok env name (st w)")
    case False
    then have "w' = acquire env w" using assms by (simp add: mobile_stage_skips)
    then show ?thesis by (simp add: acquire_def)
  next
    case True
    then have ok1: "mobile_ok env name (st ?w1)" by (simp add: mobile_ok_acquire)
    show ?thesis
    proof (cases "have_playwright env")
      case False
      then have "mobile_fallback env delay browser name dir ?mq ?w2 = Some w'"
        using assms ok1 by (simp add: mobile_stage_def Let_def)
      then have "completed_profiles w' = completed_profiles ?w2"
        by (rule mobile_fallback_pool(1))
      then show ?thesis using p2(2) by (rule trans)
    next
      case True
      note pw = True
      show ?thesis
      proof (cases "pw_enter_raises env (ticks ?w3)")
        case True
        then have "mobile_fallback env delay browser name dir ?mq
            (emit (PlaywrightOpen name False) ?w3) = Some w'"
          using assms pw ok1 by (simp add: mobile_stage_def Let_def)
        then have "completed_profiles w' =
            completed_profiles (emit (PlaywrightOpen name False) ?w3)"
          by (rule mobile_fallback_pool(1))
        also have "\<dots> = completed_profiles ?w3" by (simp add: emit_def)
        finally show ?thesis unfolding p2(4) .
      next
        case False
        then obtain w4 where w4: "playwright_pass env delay name ?mq
            (emit (PlaywrightOpen name True) ?w3) = Some w4"
          and w': "w' = emit (PlaywrightClose name) w4"
          using assms pw ok1 by (auto simp add: mobile_stage_def Let_def bind_eq_Some_conv)
        have "pool_kept (emit (PlaywrightOpen name True) ?w3) w4"
          using w4 playwright_pass_searching searching_pool by blast
        then have "completed_profiles w4 = completed_profiles ?w3"
          by (simp add: pool_kept_def emit_def)
        then have "completed_profiles w4 = completed_profiles w" unfolding p2(4) .
        then show ?thesis using w' by (simp add: emit_def)
      qed
    qed
  qed
  show "length (browser_processes w') = length (browser_processes w) + 1"
    if ok: "mobile_ok env name (st w)" and np: "\<not> have_playwright env"
      and br: "browser \<in> {''chrome'', ''edge''}" and po: "\<forall>n. popen_ok env n"
  proof -
    have ok1: "mobile_ok env name (st ?w1)" using ok by (simp add: mobile_ok_acquire)
    have fb: "mobile_fallback env delay browser name dir ?mq ?w2 = Some w'"
      using assms ok1 np by (simp add: mobile_stage_def Let_def)
    have "popen_ok env (Suc (ticks ?w2))" using po by (rule spec)
    with fb br have "length (browser_processes w') = length (browser_processes ?w2) + 1"
      by (rule mobile_fallback_pool(2))
    then show ?thesis unfolding p2(1) .
  qed
qed

lemma profile_turn_pool:
  assumes pt: "profile_turn env fruits delay browser name dir w = Some w'"
  shows "completed_profiles w' =
           (if length (completed_profiles w) \<ge> MAX_ACTIVE_BROWSERS
            then tl (completed_profiles w @ [name]) else completed_profiles w @ [name])"
    and "\<not> mobile_ok env name (st w) \<Longrightarrow>
         length (browser_processes w') \<le>
           (if length (completed_profiles w) \<ge> MAX_ACTIVE_BROWSERS
            then length (browser_processes w) else length (browser_processes w) + 1)"
    and "mobile_ok env name (st w) \<Longrightarrow> \<not> have_playwright env \<Longrightarrow>
         browser \<in> {''chrome'', ''edge''} \<Longrightarrow> \<forall>n. popen_ok env n \<Longrightarrow>
         length (browser_processes w') =
           (if length (completed_profiles w) \<ge> MAX_ACTIVE_BROWSERS
            then length (browser_processes w) + 1 else length (browser_processes w) + 2)"
proof -
  let ?w1 = "with_lock env
      (\<lambda>s. s\<lparr>current_profile := name,
             status := ''Opening '' @ browser @ '' for profile: '' @ name\<rparr>) w"
  let ?w2 = "track (launch_browser env browser ?w1) name
      (emit (LaunchBrowser browser dir (launch_browser env browser ?w1)) ?w1)"
  obtain w3 w4 w5 where w3: "sleep_with_pause env 3 ?w2 = Some w3"
    and w4: "desktop_pass env delay name
        (build_queries fruits (desktop_total_of fruits name (st ?w1))) w3 = Some w4"
    and w5: "keep_windows_manageable env browser name
        (w4\<lparr>completed_profiles := completed_profiles w4 @ [name]\<rparr>) = Some w5"
    and w': "mobile_stage env fruits delay browser name dir w5 = Some w'"
    using pt by (auto simp add: profile_turn_def Let_def bind_eq_Some_conv)
  let ?v = "w4\<lparr>completed_profiles := completed_profiles w4 @ [name]\<rparr>"
  have k: "pool_kept ?w2 w4"
    using paced_pool_kept [OF sleep_with_pause_paced [OF w3]]
      searching_pool [OF desktop_pass_searching [OF w4]] pool_kept_trans by blast
  have c4: "completed_profiles w4 = completed_profiles w"
    using k by (simp add: pool_kept_def track_def emit_def with_lock_def acquire_def
        split: option.splits)
  have b4: "browser_processes w4 = browser_processes ?w2"
    using k by (simp add: pool_kept_def)
  have gt: "(length (completed_profiles ?v) > MAX_ACTIVE_BROWSERS) =
      (length (completed_profiles w) \<ge> MAX_ACTIVE_BROWSERS)"
    using c4 by auto
  have c5: "completed_profiles w5 =
      (if length (completed_profiles w) \<ge> MAX_ACTIVE_BROWSERS
       then tl (completed_profiles w @ [name]) else completed_profiles w @ [name])"
    using keep_windows_manageable_pool(2) [OF w5] gt c4 by simp
  have b5: "browser_processes w5 =
      (if length (completed_profiles w) \<ge> MAX_ACTIVE_BROWSERS
       then tl (browser_processes ?w2) else browser_processes ?w2)"
    using keep_windows_manageable_pool(1) [OF w5] gt b4 by simp
  show "completed_profiles w' =
           (if length (completed_profiles w) \<ge> MAX_ACTIVE_BROWSERS
            then tl (completed_profiles w @ [name]) else completed_profiles w @ [name])"
    using mobile_stage_pool(1) [OF w'] c5 by simp
  have ev: "evolves w w5"
  proof -
    have "evolves w ?w1" by (rule evolves_with_lock) (rule advances_labels)
    also have "evolves ?w1 ?w2" using evolves_emit evolves_track evolves_trans by blast
    also have "evolves ?w2 w3" using w3 by (rule sleep_with_pause_evolves)
    also have "evolves w3 w4" using w4 desktop_pass_searching searching_evolves by blast
    also have "evolves w4 ?v" by (rule evolves_pool)
    also have "evolves ?v w5" using w5 by (rule keep_windows_manageable_evolves)
    finally show ?thesis .
  qed
  have ok5: "mobile_ok env name (st w5) = mobile_ok env name (st w)"
    using ev by (simp add: evolves_def mobile_ok_advances)
  have l2: "length (browser_processes ?w2) \<le> length (browser_processes w) + 1"
    by (simp add: track_def emit_def with_lock_def acquire_def split: option.splits)
  show "length (browser_processes w') \<le>
           (if length (completed_profiles w) \<ge> MAX_ACTIVE_BROWSERS
            then length (browser_processes w) else length (browser_processes w) + 1)"
    if "\<not> mobile_ok env name (st w)"
    using mobile_stage_pool(2) [OF w'] that ok5 b5 l2 by auto
  show "length (browser_processes w') =
           (if length (completed_profiles w) \<ge> MAX_ACTIVE_BROWSERS
            then length (browser_processes w) + 1 else length (browser_processes w) + 2)"
    if ok: "mobile_ok env name (st w)" and np: "\<not> have_playwright env"
      and br: "browser \<in> {''chrome'', ''edge''}" and po: "\<forall>n. popen_ok env n"
  proof -
    have "launch_browser env browser ?w1 = Some (Suc (ticks w))"
      using br po by (auto simp add: launch_browser_def with_lock_def acquire_def)
    then have e2: "browser_processes ?w2 = browser_processes w @ [(Suc (ticks w), name)]"
      by (simp add: track_def emit_def with_lock_def acquire_def)
    have "length (browser_processes w') = length (browser_processes w5) + 1"
      using mobile_stage_pool(3) [OF w'] ok ok5 np br po by simp
    then show ?thesis using b5 e2 by simp
  qed
qed

lemma mobile_ok_evolves: "evolves w w' \<Longrightarrow> mobile_ok env name (st w') = mobile_ok env name (st w)"
  by (simp add: evolves_def mobile_ok_advances)

text \<open>
  Without the mobile UA window the policy works: when at most as many handles as
  completed profiles are tracked, and at most \<open>MAX_ACTIVE_BROWSERS\<close> profiles are
  listed, the same holds after every turn of the loop.
\<close>

lemma profiles_loop_pool_bounded:
  "profiles_loop env fruits delay browser ps w = Some (oc, w') \<Longrightarrow>
   \<not> mobile_enabled (st w) \<Longrightarrow>
   length (browser_processes w) \<le> length (completed_profiles w) \<Longrightarrow>
   length (completed_profiles w) \<le> MAX_ACTIVE_BROWSERS \<Longrightarrow>
   length (browser_processes w') \<le> length (completed_profiles w') \<and>
   length (completed_profiles w') \<le> MAX_ACTIVE_BROWSERS"
proof (induction ps arbitrary: w)
  case Nil
  then show ?case by simp
next
  case (Cons p ps)
  let ?a = "acquire env w"
  have pa: "browser_processes ?a = browser_processes w"
    "completed_profiles ?a = completed_profiles w"
    by (simp_all add: acquire_def)
  have ea: "evolves w ?a" by (rule evolves_acquire)
  then have ma: "\<not> mobile_enabled (st ?a)"
    using Cons.prems(2) by (simp add: evolves_def advances_def)
  show ?case
  proof (cases "is_running (st ?a)")
    case False
    then have "w' = ?a" using Cons.prems(1) by simp
    then show ?thesis using Cons.prems(3,4) pa by simp
  next
    case True
    note run = True
    show ?thesis
    proof (cases "pname p")
      case None
      then have "w' = ?a" using Cons.prems(1) run by simp
      then show ?thesis using Cons.prems(3,4) pa by simp
    next
      case (Some name)
      then obtain v where v: "profile_turn env fruits delay browser name (directory p) ?a = Some v"
        and rest: "profiles_loop env fruits delay browser ps v = Some (oc, w')"
        using Cons.prems(1) run by (auto simp add: bind_eq_Some_conv)
      have nok: "\<not> mobile_ok env name (st ?a)" using ma by (simp add: mobile_ok_def)
      have "evolves ?a v" using v by (rule profile_turn_evolves)
      then have mv: "\<not> mobile_enabled (st v)" using ma by (simp add: evolves_def advances_def)
      have cv: "completed_profiles v =
           (if length (completed_profiles ?a) \<ge> MAX_ACTIVE_BROWSERS
            then tl (completed_profiles ?a @ [name]) else completed_profiles ?a @ [name])"
        using v by (rule profile_turn_pool(1))
      have bv: "length (browser_processes v) \<le>
           (if length (completed_profiles ?a) \<ge> MAX_ACTIVE_BROWSERS
            then length (browser_processes ?a) else length (browser_processes ?a) + 1)"
        using v nok by (rule profile_turn_pool(2))
      have "length (browser_processes v) \<le> length (completed_profiles v)"
        and "length (completed_profiles v) \<le> MAX_ACTIVE_BROWSERS"
        using cv bv Cons.prems(3,4) unfolding pa by (auto split: if_splits)
      with rest mv show ?thesis by (rule Cons.IH)
    qed
  qed
qed

text \<open>
  With the mobile UA window every turn tracks two handles and the policy evicts at
  most one: in a steady run of \<open>n\<close> mobile-eligible profiles, Playwright absent and
  every launch successful, the loop finishes with \<open>2 * n\<close> handles more, less one for
  each turn that found \<open>MAX_ACTIVE_BROWSERS\<close> profiles listed.
\<close>

lemma profiles_loop_pool_grows:
  "steady_run True env w \<Longrightarrow>
   \<forall>p \<in> set ps. \<exists>name. pname p = Some name \<and> mobile_ok env name (st w) \<Longrightarrow>
   \<not> have_playwright env \<Longrightarrow> browser \<in> {''chrome'', ''edge''} \<Longrightarrow> \<forall>n. popen_ok env n \<Longrightarrow>
   length (completed_profiles w) \<le> MAX_ACTIVE_BROWSERS \<Longrightarrow>
   \<exists>w'. profiles_loop env fruits delay browser ps w = Some (Finished, w') \<and>
     length (completed_profiles w') =
       min MAX_ACTIVE_BROWSERS (length (completed_profiles w) + length ps) \<and>
     length (browser_processes w') =
       length (browser_processes w) + 2 * length ps -
         (length (completed_profiles w) + length ps - MAX_ACTIVE_BROWSERS)"
proof (induction ps arbitrary: w)
  case Nil
  then show ?case by simp
next
  case (Cons p ps)
  let ?a = "acquire env w"
  have pa: "browser_processes ?a = browser_processes w"
    "completed_profiles ?a = completed_profiles w"
    by (simp_all add: acquire_def)
  have sa: "steady_run True env ?a" using Cons.prems(1) by (rule steady_run_acquire(1))
  have run: "is_running (st ?a)" using steady_run_acquire(3) [OF Cons.prems(1)] by simp
  obtain name where name: "pname p = Some name" and ok: "mobile_ok env name (st w)"
    using Cons.prems(2) by auto
  have oka: "mobile_ok env name (st ?a)" using ok by (simp add: mobile_ok_acquire)
  obtain v where v: "profile_turn env fruits delay browser name (directory p) ?a = Some v"
    and sv: "steady_run True env v"
    using profile_turn_run [OF sa] by blast
  have ev: "evolves w v"
    using evolves_acquire profile_turn_evolves [OF v] by (rule evolves_trans)
  have cv: "completed_profiles v =
           (if length (completed_profiles ?a) \<ge> MAX_ACTIVE_BROWSERS
            then tl (completed_profiles ?a @ [name]) else completed_profiles ?a @ [name])"
    using v by (rule profile_turn_pool(1))
  have bv: "length (browser_processes v) =
           (if length (completed_profiles ?a) \<ge> MAX_ACTIVE_BROWSERS
            then length (browser_processes ?a) + 1 else length (browser_processes ?a) + 2)"
    using v oka Cons.prems(3,4,5) by (rule profile_turn_pool(3))
  have lv: "length (completed_profiles v) \<le> MAX_ACTIVE_BROWSERS"
    using cv Cons.prems(6) unfolding pa by (auto split: if_splits)
  have okv: "\<forall>p \<in> set ps. \<exists>name. pname p = Some name \<and> mobile_ok env name (st v)"
    using Cons.prems(2) by (simp add: mobile_ok_evolves [OF ev])
  obtain w' where w': "profiles_loop env fruits delay browser ps v = Some (Finished, w')"
    and c': "length (completed_profiles w') =
       min MAX_ACTIVE_BROWSERS (length (completed_profiles v) + length ps)"
    and b': "length (browser_processes w') =
       length (browser_processes v) + 2 * length ps -
         (length (completed_profiles v) + length ps - MAX_ACTIVE_BROWSERS)"
    using Cons.IH [OF sv okv Cons.prems(3,4,5) lv] by blast
  have loop: "profiles_loop env fruits delay browser (p # ps) w = Some (Finished, w')"
    using run name v w' by simp
  have "length (completed_profiles w') =
       min MAX_ACTIVE_BROWSERS (length (completed_profiles w) + length (p # ps))"
    using c' cv Cons.prems(6) unfolding pa by (auto split: if_splits)
  moreover have "length (browser_processes w') =
       length (browser_processes w) + 2 * length (p # ps) -
         (length (completed_profiles w) + length (p # ps) - MAX_ACTIVE_BROWSERS)"
    using b' bv cv Cons.prems(6) unfolding pa by (auto split: if_splits)
  ultimately show ?case using loop by blast
qed

text \<open>
  Claim C2. The tracked handles exceed the cap. A request for three level-2 profiles
  with mobile mode enabled is accepted; Playwright is not installed and every launch
  succeeds. Each turn tracks the desktop window and the mobile UA window of its
  profile, and only the third turn finds more than \<open>MAX_ACTIVE_BROWSERS\<close> completed
  profiles and evicts one handle: the loop finishes with five tracked handles.
\<close>

theorem fallback_handles_exceed_cap:
  "\<exists>r w'. start_automation ''2025-01-15'' 20 three_profiles_request (\<lambda>b. []) level2_info
             initial_state = Inr r \<and>
          worker_body quiet_env (rq_fruits three_profiles_request) (sr_delay r)
            (rq_browser three_profiles_request) (sr_profiles r)
            (start_world (sr_state r) (sr_info r)) = Some (Finished, w') \<and>
          length (completed_profiles w') = MAX_ACTIVE_BROWSERS \<and>
          length (browser_processes w') = 5 \<and>
          MAX_ACTIVE_BROWSERS < length (browser_processes w')"
proof -
  let ?ps = "rq_selectedProfiles three_profiles_request"
  obtain r where r: "start_automation ''2025-01-15'' 20 three_profiles_request (\<lambda>b. []) level2_info
      initial_state = Inr r"
    by (simp add: start_automation_def three_profiles_request_def initial_state_def Let_def)
  have ps: "sr_profiles r = ?ps"
    using r by (auto simp add: start_automation_def three_profiles_request_def initial_state_def
        Let_def resolve_profiles_def)
  have run: "is_running (sr_state r)" "\<not> is_paused (sr_state r)" "mobile_enabled (sr_state r)"
    using r by (auto simp add: start_automation_def three_profiles_request_def initial_state_def
        Let_def)
  have el: "profile_eligibility (sr_state r) =
      q_eligibility (quota_loop ''2025-01-15'' 20 True ?ps (empty_quotas level2_info))"
    using r ps by (auto simp add: start_automation_def three_profiles_request_def
        initial_state_def Let_def resolve_profiles_def)
  have lv: "profile_level ''2025-01-15'' level2_info n = 2"
    if "n \<in> {''Profile 1'', ''Profile 2'', ''Profile 3''}" for n
    using that by (auto simp add: profile_level_def get_or_init_profile_def level2_info_def
        level2_entry_def get_default_def Let_def)
  have names: "resolved_name ` set ?ps = {''Profile 1'', ''Profile 2'', ''Profile 3''}"
    by (simp add: three_profiles_request_def resolved_name_def str_or_def)
  have ok: "mobile_ok quiet_env n (sr_state r)"
    if "n \<in> {''Profile 1'', ''Profile 2'', ''Profile 3''}" for n
    using that run(3) lv [OF that]
    by (simp add: mobile_ok_def el quota_loop_eligibility names empty_quotas_def quiet_env_def)
  let ?w = "start_world (sr_state r) (sr_info r)"
  let ?init = "?w\<lparr>completed_l := 0, browser_processes := [], completed_profiles := []\<rparr>"
  have "steady_run True (quiet_env\<lparr>gui_raises := gui_raises quiet_env\<rparr>) (?init\<lparr>st := sr_state r\<rparr>)"
    using run by (intro steady_run_quiet)
  then have s: "steady_run True quiet_env ?init" by (simp add: start_world_def)
  have all: "\<forall>p \<in> set ?ps. \<exists>name. pname p = Some name \<and> mobile_ok quiet_env name (st ?init)"
    using ok by (simp add: three_profiles_request_def start_world_def)
  have "\<exists>w'. profiles_loop quiet_env (rq_fruits three_profiles_request) (sr_delay r)
        (rq_browser three_profiles_request) ?ps ?init = Some (Finished, w') \<and>
     length (completed_profiles w') =
       min MAX_ACTIVE_BROWSERS (length (completed_profiles ?init) + length ?ps) \<and>
     length (browser_processes w') =
       length (browser_processes ?init) + 2 * length ?ps -
         (length (completed_profiles ?init) + length ?ps - MAX_ACTIVE_BROWSERS)"
    using s all
    by (rule profiles_loop_pool_grows)
       (simp_all add: quiet_env_def three_profiles_request_def start_world_def)
  then obtain w' where w': "profiles_loop quiet_env (rq_fruits three_profiles_request) (sr_delay r)
        (rq_browser three_profiles_request) ?ps ?init = Some (Finished, w')"
    and c: "length (completed_profiles w') = MAX_ACTIVE_BROWSERS"
    and b: "length (browser_processes w') = 5"
    by (auto simp add: three_profiles_request_def start_world_def MAX_ACTIVE_BROWSERS_def)
  have "worker_body quiet_env (rq_fruits three_profiles_request) (sr_delay r)
            (rq_browser three_profiles_request) (sr_profiles r) ?w = Some (Finished, w')"
    using w' unfolding worker_body_def ps by (simp add: three_profiles_request_def)
  moreover have "MAX_ACTIVE_BROWSERS < length (browser_processes w')"
    using b by (simp add: MAX_ACTIVE_BROWSERS_def)
  ultimately show ?thesis using r c b by blast
qed

section \<open>Progress entries over a run\<close>

lemma desktop_quota_nonneg: "0 \<le> desktop_quota lvl"
  by (simp add: desktop_quota_def)

lemma start_automation_capped:
  assumes "start_automation today mc rq memory info s = Inr r"
  shows "capped (sr_state r)"
proof -
  let ?acc = "quota_loop today mc (rq_mobileEnabled rq)
      (resolve_profiles (rq_browser rq) (rq_selectedProfiles rq) memory
         (rq_useDefaultIfNoProfile rq)) (empty_quotas info)"
  have pp: "profile_progress (sr_state r) = q_progress ?acc"
    and mp: "mobile_progress (sr_state r) = q_mobile ?acc"
    using assms by (auto simp add: start_automation_def Let_def split: if_splits)
  have "pdone e \<le> ptotal e" if "q_progress ?acc p = Some e" for p e
    using that desktop_quota_nonneg
    by (auto simp add: quota_loop_progress empty_quotas_def split: if_splits)
  moreover have "pdone e \<le> ptotal e" if "q_mobile ?acc p = Some e" for p e
    using that by (auto simp add: quota_loop_mobile empty_quotas_def split: if_splits)
  ultimately show ?thesis
    unfolding capped_def entries_capped_def pp mp by blast
qed

text \<open>
  Claim C5. Each increment of a progress entry, desktop or mobile, sets \<open>done\<close> to
  \<open>min(done + 1, total)\<close> and leaves \<open>total\<close> and every other profile's entry as
  they are; so an entry with \<open>done \<le> total\<close> never decreases and never exceeds its
  total, and \<open>n\<close> increments from zero give \<open>min(n, total)\<close>, also for \<open>n > total\<close>.
  Over a run: the state that \<open>start_automation\<close> hands to the worker has
  \<open>done \<le> total\<close> in every entry, and when the worker returns, every entry is still
  there with the same total and a \<open>done\<close> that has not decreased and does not exceed
  the total, and no entry of the final state has \<open>done > total\<close>.
\<close>

theorem progress_clamped:
  "(\<forall>p e. profile_progress s p = Some e \<longrightarrow>
      (\<exists>e'. profile_progress (desktop_update c name s) p = Some e' \<and>
            ptotal e' = ptotal e \<and>
            pdone e' = (if p = name then min (pdone e + 1) (ptotal e) else pdone e) \<and>
            (pdone e \<le> ptotal e \<longrightarrow> pdone e \<le> pdone e' \<and> pdone e' \<le> ptotal e'))) \<and>
   mobile_progress (desktop_update c name s) = mobile_progress s \<and>
   (\<forall>p e. mobile_progress s p = Some e \<longrightarrow>
      (\<exists>e'. mobile_progress (mobile_update mc name s) p = Some e' \<and>
            ptotal e' = ptotal e \<and>
            pdone e' = (if p = name then min (pdone e + 1) (ptotal e) else pdone e) \<and>
            (pdone e \<le> ptotal e \<longrightarrow> pdone e \<le> pdone e' \<and> pdone e' \<le> ptotal e'))) \<and>
   profile_progress (mobile_update mc name s) = profile_progress s \<and>
   (0 \<le> t \<longrightarrow> pdone ((bump_done ^^ n) \<lparr>pdone = 0, ptotal = t\<rparr>) = min (int n) t) \<and>
   (\<forall>r. start_automation today mcount rq memory info s0 = Inr r \<longrightarrow> capped (sr_state r)) \<and>
   (\<forall>w'. automation_worker env fruits delay browser profiles w = Some w' \<longrightarrow>
      entries_grow (profile_progress (st w)) (profile_progress (st w')) \<and>
      entries_grow (mobile_progress (st w)) (mobile_progress (st w')) \<and>
      (capped (st w) \<longrightarrow> capped (st w')))"
proof -
  have d: "\<exists>e'. profile_progress (desktop_update c name s) p = Some e' \<and>
            ptotal e' = ptotal e \<and>
            pdone e' = (if p = name then min (pdone e + 1) (ptotal e) else pdone e) \<and>
            (pdone e \<le> ptotal e \<longrightarrow> pdone e \<le> pdone e' \<and> pdone e' \<le> ptotal e')"
    if "profile_progress s p = Some e" for p e
    using that by (cases "profile_progress s name") (auto simp add: desktop_update_def bump_done_def)
  have m: "\<exists>e'. mobile_progress (mobile_update mc name s) p = Some e' \<and>
            ptotal e' = ptotal e \<and>
            pdone e' = (if p = name then min (pdone e + 1) (ptotal e) else pdone e) \<and>
            (pdone e \<le> ptotal e \<longrightarrow> pdone e \<le> pdone e' \<and> pdone e' \<le> ptotal e')"
    if "mobile_progress s p = Some e" for p e
    using that by (auto simp add: mobile_update_def bump_done_def get_default_def)
  have f: "mobile_progress (desktop_update c name s) = mobile_progress s"
    "profile_progress (mobile_update mc name s) = profile_progress s"
    by (simp_all add: desktop_update_def mobile_update_def)
  have i: "0 \<le> t \<longrightarrow> pdone ((bump_done ^^ n) \<lparr>pdone = 0, ptotal = t\<rparr>) = min (int n) t"
    by (simp add: bump_done_iterated)
  have st: "\<forall>r. start_automation today mcount rq memory info s0 = Inr r \<longrightarrow> capped (sr_state r)"
    using start_automation_capped by blast
  have run: "entries_grow (profile_progress (st w)) (profile_progress (st w')) \<and>
      entries_grow (mobile_progress (st w)) (mobile_progress (st w')) \<and>
      (capped (st w) \<longrightarrow> capped (st w'))"
    if "automation_worker env fruits delay browser profiles w = Some w'" for w'
    using automation_worker_advances [OF that] by (simp add: advances_def)
  show ?thesis using d m f i st run by blast
qed

theorem progress_clamped_witness:
  "profile_progress state_fixture ''Default'' = Some \<lparr>pdone = 10, ptotal = 10\<rparr> \<and>
   profile_progress (desktop_update 11 ''Default'' state_fixture) ''Default'' =
     Some \<lparr>pdone = 10, ptotal = 10\<rparr> \<and>
   mobile_progress (mobile_update 20 ''Default'' state_fixture) ''Default'' =
     Some \<lparr>pdone = 4, ptotal = 20\<rparr> \<and>
   pdone ((bump_done ^^ 12) \<lparr>pdone = 0, ptotal = 10\<rparr>) = 10 \<and>
   (\<exists>r w'. start_automation ''2025-01-15'' 20 request_fixture (\<lambda>b. []) info_fixture initial_state
              = Inr r \<and>
      profile_progress (sr_state r) ''Profile 1'' = Some \<lparr>pdone = 0, ptotal = 32\<rparr> \<and>
      automation_worker quiet_env (rq_fruits request_fixture) (sr_delay r)
        (rq_browser request_fixture) (sr_profiles r) (start_world (sr_state r) (sr_info r))
        = Some w' \<and>
      (\<exists>e'. profile_progress (st w') ''Profile 1'' = Some e' \<and> ptotal e' = 32 \<and>
            0 \<le> pdone e' \<and> pdone e' \<le> 32) \<and>
      capped (st w'))"
proof -
  have a: "profile_progress state_fixture ''Default'' = Some \<lparr>pdone = 10, ptotal = 10\<rparr>"
    and b: "mobile_progress state_fixture ''Default'' = Some \<lparr>pdone = 3, ptotal = 20\<rparr>"
    by (simp_all add: state_fixture_def initial_state_def)
  have t: "(0::int) \<le> 10" by simp
  obtain r where r: "start_automation ''2025-01-15'' 20 request_fixture (\<lambda>b. []) info_fixture
      initial_state = Inr r"
    by (simp add: start_automation_def request_fixture_def initial_state_def Let_def)
  have flags: "is_running (sr_state r)" "\<not> is_paused (sr_state r)"
    using r by (auto simp add: start_automation_def request_fixture_def initial_state_def Let_def)
  have l1: "profile_level ''2025-01-15'' info_fixture ''Profile 1'' = 2"
    by (simp add: profile_level_def get_or_init_profile_def info_fixture_def get_default_def
        empty_entry_def Let_def)
  have pp: "profile_progress (sr_state r) =
      q_progress (quota_loop ''2025-01-15'' 20 True (rq_selectedProfiles request_fixture)
        (empty_quotas info_fixture))"
    using r by (auto simp add: start_automation_def request_fixture_def initial_state_def Let_def
        resolve_profiles_def)
  have p1: "profile_progress (sr_state r) ''Profile 1'' = Some \<lparr>pdone = 0, ptotal = 32\<rparr>"
    unfolding pp quota_loop_progress
    by (simp add: request_fixture_def resolved_name_def str_or_def empty_quotas_def l1
        desktop_quota_def)
  let ?w = "start_world (sr_state r) (sr_info r)"
  have "steady_run True (quiet_env\<lparr>gui_raises := gui_raises quiet_env\<rparr>) (?w\<lparr>st := sr_state r\<rparr>)"
    using flags by (intro steady_run_quiet)
  then have s: "steady_run True quiet_env ?w" by (simp add: start_world_def)
  obtain w' where w': "automation_worker quiet_env (rq_fruits request_fixture) (sr_delay r)
        (rq_browser request_fixture) (sr_profiles r) ?w = Some w'"
    using automation_worker_returns [OF s] by blast
  note T = progress_clamped [where s = state_fixture and c = 11 and name = "''Default''"
      and mc = 20 and t = 10 and n = 12 and today = "''2025-01-15''" and mcount = 20
      and rq = request_fixture and memory = "\<lambda>b. []" and info = info_fixture
      and ?s0.0 = initial_state and env = quiet_env and fruits = "rq_fruits request_fixture"
      and delay = "sr_delay r" and browser = "rq_browser request_fixture"
      and profiles = "sr_profiles r" and w = ?w]
  have d: "\<exists>e'. profile_progress (desktop_update 11 ''Default'' state_fixture) ''Default'' = Some e' \<and>
            ptotal e' = 10 \<and> pdone e' = 10"
    using T [THEN conjunct1, rule_format, OF a] by auto
  have m: "\<exists>e'. mobile_progress (mobile_update 20 ''Default'' state_fixture) ''Default'' = Some e' \<and>
            ptotal e' = 20 \<and> pdone e' = 4"
    using T [THEN conjunct2, THEN conjunct2, THEN conjunct1, rule_format, OF b] by auto
  have i: "pdone ((bump_done ^^ 12) \<lparr>pdone = 0, ptotal = 10\<rparr>) = 10"
    using T [THEN conjunct2, THEN conjunct2, THEN conjunct2, THEN conjunct2, THEN conjunct1,
        rule_format, OF t]
    by simp
  have c0: "capped (sr_state r)"
    using T [THEN conjunct2, THEN conjunct2, THEN conjunct2, THEN conjunct2, THEN conjunct2,
        THEN conjunct1, rule_format, OF r] .
  have g: "entries_grow (profile_progress (st ?w)) (profile_progress (st w')) \<and>
      entries_grow (mobile_progress (st ?w)) (mobile_progress (st w')) \<and>
      (capped (st ?w) \<longrightarrow> capped (st w'))"
    using T [THEN conjunct2, THEN conjunct2, THEN conjunct2, THEN conjunct2, THEN conjunct2,
        THEN conjunct2, rule_format, OF w'] .
  have c': "capped (st w')" using g c0 by (simp add: start_world_def)
  have "\<exists>e'. profile_progress (st w') ''Profile 1'' = Some e' \<and> ptotal e' = 32 \<and>
            0 \<le> pdone e' \<and> pdone e' \<le> 32"
  proof -
    have eg: "entries_grow (profile_progress (sr_state r)) (profile_progress (st w'))"
      using g by (simp add: start_world_def)
    have le: "pdone \<lparr>pdone = 0, ptotal = 32\<rparr> \<le> ptotal \<lparr>pdone = 0, ptotal = 32\<rparr>" by simp
    obtain e' where "profile_progress (st w') ''Profile 1'' = Some e'"
      and "ptotal e' = ptotal \<lparr>pdone = 0, ptotal = 32\<rparr>"
      and "pdone \<lparr>pdone = 0, ptotal = 32\<rparr> \<le> pdone e'"
      and "pdone e' \<le> ptotal e'"
      using eg [unfolded entries_grow_def, THEN conjunct2, rule_format, OF p1 le] by blast
    then show ?thesis by simp
  qed
  then have "\<exists>r w'. start_automation ''2025-01-15'' 20 request_fixture (\<lambda>b. []) info_fixture
        initial_state = Inr r \<and>
      profile_progress (sr_state r) ''Profile 1'' = Some \<lparr>pdone = 0, ptotal = 32\<rparr> \<and>
      automation_worker quiet_env (rq_fruits request_fixture) (sr_delay r)
        (rq_browser request_fixture) (sr_profiles r) (start_world (sr_state r) (sr_info r))
        = Some w' \<and>
      (\<exists>e'. profile_progress (st w') ''Profile 1'' = Some e' \<and> ptotal e' = 32 \<and>
            0 \<le> pdone e' \<and> pdone e' \<le> 32) \<and>
      capped (st w')"
    using r p1 w' c' by blast
  then show ?thesis using a d m i by auto
qed

section \<open>What a turn does to the mobile progress\<close>


lemma kept_trans: "kept g w w' \<Longrightarrow> kept g w' w'' \<Longrightarrow> kept g w w''"
  by (simp add: kept_def)

lemma transp_kept: "transp (kept g)"
  by (rule transpI) (rule kept_trans)

lemma log_of_emit [simp]: "log_of g (emit e w) = log_of g w @ g e"
  by (simp add: log_of_def)

lemma log_of_same: "trace w' = trace w \<Longrightarrow> log_of g w' = log_of g w"
  by (simp add: log_of_def)















lemma desktop_update_mobile_progress [simp]:
  "mobile_progress (desktop_update c name s) = mobile_progress s"
  by (simp add: desktop_update_def)







lemma mobile_progress_acquire [simp]:
  "mobile_progress (st (acquire env w)) = mobile_progress (st w)"
  using ctl_only_fields(2) [OF ctl_only_acquire [of w env]] .

lemma log_of_with_lock [simp]: "log_of g (with_lock env f w) = log_of g w"
  by (simp add: log_of_def)

lemma log_of_acquire [simp]: "log_of g (acquire env w) = log_of g w"
  by (simp add: log_of_def)

lemma log_of_try_bump [simp]: "log_of g (try_bump env name is_pc w) = log_of g w"
  by (simp add: log_of_def try_bump_def)

lemma st_try_bump [simp]: "st (try_bump env name is_pc w) = st w"
  by (simp add: try_bump_def)

lemma st_emit [simp]: "st (emit e w) = st w"
  by (simp add: emit_def)

















end
